theory Spec2Isabelle
  imports Main
begin

section \<open>Configuration constants of the sliding-window table\<close>

text \<open>
  The four constants at the head of the table component. JavaScript numbers that only
  ever hold integers are modelled as \<open>int\<close>; durations and clock readings as \<open>nat\<close>
  milliseconds.
\<close>

definition BUFFER_SIZE :: int where
  "BUFFER_SIZE = 20"

definition OVERSCAN :: int where
  "OVERSCAN = 5"

definition DEBOUNCE_MS :: nat where
  "DEBOUNCE_MS = 300"

definition ROW_HEIGHT :: int where
  "ROW_HEIGHT = 50"

section \<open>The window calculator: \<open>visibleRange\<close>\<close>

text \<open>
  A virtual item as the virtualizer hands it to the component: the component reads its
  \<open>index\<close> for the window computation and its pixel offset and height for rendering.
\<close>

record virtualItem =
  index :: int
  item_start :: int
  item_size :: int

text \<open>The object \<open>{ start, size }\<close> returned by the \<open>visibleRange\<close> memo.\<close>

record fetchRange =
  start :: int
  size_r :: int

text \<open>
  \<open>visibleRange\<close> follows the body of the memo line by line: the early return for an
  empty item array, then first and last index, the two clamps and the size.
\<close>

definition visibleRange :: "virtualItem list \<Rightarrow> int \<Rightarrow> fetchRange" where
  "visibleRange virtualItems totalCount =
     (if length virtualItems = 0 then \<lparr>start = 0, size_r = 50\<rparr>
      else
        let firstVisibleIndex = index (virtualItems ! 0);
            lastVisibleIndex = index (virtualItems ! (length virtualItems - 1));
            start' = max 0 (firstVisibleIndex - BUFFER_SIZE);
            end' = min (totalCount - 1) (lastVisibleIndex + BUFFER_SIZE);
            size' = end' - start' + 1
        in \<lparr>start = start', size_r = size'\<rparr>)"

text \<open>Virtual items for the consecutive indices \<open>lo, lo + 1, ..., hi\<close> (fixed row height).\<close>

definition rows :: "int \<Rightarrow> int \<Rightarrow> virtualItem list" where
  "rows lo hi =
     map (\<lambda>i. \<lparr>index = i, item_start = i * ROW_HEIGHT, item_size = ROW_HEIGHT\<rparr>) [lo..hi]"

section \<open>The range store: \<open>getAppDataRange\<close>\<close>

text \<open>
  \<open>Array.prototype.slice\<close> on integer arguments: a negative bound counts from the end,
  both bounds are clamped to the array, and an empty array results when the bounds cross.
\<close>

definition js_slice :: "'a list \<Rightarrow> int \<Rightarrow> int \<Rightarrow> 'a list" where
  "js_slice xs b e =
     (let len = int (length xs);
          k = (if b < 0 then max (len + b) 0 else min b len);
          final = (if e < 0 then max (len + e) 0 else min e len)
      in take (nat (final - k)) (drop (nat k) xs))"

text \<open>
  The data directory. A data file either holds a JSON array of records or text that
  \<open>JSON.parse\<close> rejects; valid JSON of another shape is never written by the seed
  script and is outside the model. The record type is a parameter: the store and the
  table never look inside a record.
\<close>

datatype 'r fileContent = Unparsable | JsonArray "'r list"

type_synonym 'r dataDir = "string \<Rightarrow> 'r fileContent option"

datatype error = SyntaxError

record 'r rangeQueryResult =
  data :: "'r list"
  totalCount :: int

definition dataFile :: "string \<Rightarrow> string" where
  "dataFile appId = appId @ ''_data.json''"

definition getAppDataRange ::
  "'r dataDir \<Rightarrow> string \<Rightarrow> int \<Rightarrow> int \<Rightarrow> error + 'r rangeQueryResult" where
  "getAppDataRange dir appId start' size' =
     (case dir (dataFile appId) of
        None \<Rightarrow> Inr \<lparr>data = [], totalCount = 0\<rparr>
      | Some Unparsable \<Rightarrow> Inl SyntaxError
      | Some (JsonArray allData) \<Rightarrow>
          Inr \<lparr>data = js_slice allData start' (start' + size'),
               totalCount = int (length allData)\<rparr>)"

section \<open>The route handler: \<open>GET\<close>\<close>

text \<open>
  \<open>parseInt(s, 10)\<close>: leading white space is skipped, one sign is read, then the longest
  run of decimal digits; no digit at all gives \<open>NaN\<close>, here \<open>None\<close>. Characters are the
  code units below 256, so the white space is TAB, LF, VT, FF, CR, SP and NBSP. The
  result is the exact integer (negative zero is zero, which every comparison of the
  handler treats alike).
\<close>

definition isWhiteSpace :: "char \<Rightarrow> bool" where
  "isWhiteSpace c = ((of_char c :: nat) \<in> {9, 10, 11, 12, 13, 32, 160})"

definition isDigit :: "char \<Rightarrow> bool" where
  "isDigit c = (48 \<le> (of_char c :: nat) \<and> (of_char c :: nat) \<le> 57)"

definition digitValue :: "char \<Rightarrow> int" where
  "digitValue c = int (of_char c) - 48"

definition parseInt :: "string \<Rightarrow> int option" where
  "parseInt s =
     (let S = dropWhile isWhiteSpace s;
          sign = (case S of c # _ \<Rightarrow> if c = CHR ''-'' then - 1 else 1 | [] \<Rightarrow> (1::int));
          S' = (case S of c # rest \<Rightarrow> if c = CHR ''+'' \<or> c = CHR ''-'' then rest else S
                | [] \<Rightarrow> S);
          Z = takeWhile isDigit S'
      in if Z = [] then None
         else Some (sign * foldl (\<lambda>acc c. 10 * acc + digitValue c) 0 Z))"

text \<open>The value of a run of decimal digits, as the loop of \<open>parseInt\<close> accumulates it.\<close>

abbreviation (input) decimal :: "string \<Rightarrow> int" where
  "decimal ds \<equiv> foldl (\<lambda>acc c. 10 * acc + digitValue c) 0 ds"

datatype 'r httpResponse =
    Json200 "'r rangeQueryResult"
  | Json400 string
  | Json500 string

text \<open>
  The handler, with \<open>searchParams.get\<close> returning \<open>null\<close> (\<open>None\<close>) or a string. An
  empty string is falsy, so it takes the default like a missing parameter. Whatever the
  range query throws is caught and answered with status 500.
\<close>

definition GET :: "'r dataDir \<Rightarrow> string \<Rightarrow> string option \<Rightarrow> string option \<Rightarrow> 'r httpResponse" where
  "GET dir appId startParam sizeParam =
     (let start' = (case startParam of None \<Rightarrow> Some 0
                    | Some s \<Rightarrow> if s = [] then Some 0 else parseInt s);
          size' = (case sizeParam of None \<Rightarrow> Some 50
                   | Some s \<Rightarrow> if s = [] then Some 50 else parseInt s)
      in if start' = None \<or> the start' < 0 then Json400 ''Invalid start parameter''
         else if size' = None \<or> the size' \<le> 0 \<or> the size' > 1000
           then Json400 ''Invalid size parameter (must be between 1 and 1000)''
         else (case getAppDataRange dir appId (the start') (the size') of
                 Inr result \<Rightarrow> Json200 \<lparr>data = data result, totalCount = totalCount result\<rparr>
               | Inl _ \<Rightarrow> Json500 ''Internal server error''))"

section \<open>The table's requests to the route\<close>

text \<open>
  The table builds its request with a template string, so the numbers of the range reach
  the handler as decimal text. \<open>toString\<close> is the decimal rendering of an integer (the
  ranges of the table are far below the size at which JavaScript switches to exponent
  notation).
\<close>

fun digits :: "nat \<Rightarrow> string" where
  "digits n =
     (if n < 10 then [char_of (48 + n)]
      else digits (n div 10) @ [char_of (48 + n mod 10)])"

declare digits.simps [simp del]

definition toString :: "int \<Rightarrow> string" where
  "toString n = (if n < 0 then CHR ''-'' # digits (nat (- n)) else digits (nat n))"

text \<open>
  Request texts in general. A parameter may be any text, and the handler reads a number
  from it only if digits come first: \<open>integerText ws sg k m t\<close> is white space \<open>ws\<close>, a
  sign \<open>sg\<close> (none, \<open>+\<close> or \<open>-\<close>), \<open>k\<close> zeros, the decimal rendering of \<open>m\<close>, and a
  rest \<open>t\<close> that does not go on with a digit (\<open>stops\<close>). A text with no digit in that
  place is \<open>ws @ sg @ t\<close> with \<open>digitless sg t\<close>: after the sign, or where a sign could
  have been, comes neither a digit nor, if there was no sign, more white space or a sign.
\<close>

definition integerText :: "string \<Rightarrow> string \<Rightarrow> nat \<Rightarrow> nat \<Rightarrow> string \<Rightarrow> string" where
  "integerText ws sg k m t = ws @ sg @ replicate k CHR ''0'' @ digits m @ t"

definition leads :: "string \<Rightarrow> string \<Rightarrow> bool" where
  "leads ws sg = (list_all isWhiteSpace ws \<and> (sg = [] \<or> sg = ''+'' \<or> sg = ''-''))"

definition stops :: "string \<Rightarrow> bool" where
  "stops t = (t = [] \<or> \<not> isDigit (hd t))"

definition digitless :: "string \<Rightarrow> string \<Rightarrow> bool" where
  "digitless sg t =
     (stops t \<and>
      (sg = [] \<longrightarrow>
         t = [] \<or> (\<not> isWhiteSpace (hd t) \<and> hd t \<noteq> CHR ''+'' \<and> hd t \<noteq> CHR ''-'')))"

text \<open>
  What \<open>res.json()\<close> resolves to: the body of a 200 answer carries \<open>data\<close> and
  \<open>totalCount\<close>, the body of a 400 or 500 answer carries \<open>error\<close> only. \<open>fetch\<close> does not
  reject on an error status, so both arrive as the result of the query function.
\<close>

datatype 'r jsonBody = DataBody "'r list" int | ErrorBody string

definition json :: "'r httpResponse \<Rightarrow> 'r jsonBody" where
  "json res =
     (case res of
        Json200 result \<Rightarrow> DataBody (data result) (totalCount result)
      | Json400 msg \<Rightarrow> ErrorBody msg
      | Json500 msg \<Rightarrow> ErrorBody msg)"

text \<open>
  The query key \<open>['app-data', appId, start, size]\<close> of a mounted table, whose \<open>appId\<close>
  never changes: the pair of start and size.
\<close>

type_synonym queryKey = "int \<times> int"

definition keyOf :: "fetchRange \<Rightarrow> queryKey" where
  "keyOf r = (start r, size_r r)"

text \<open>The query function of \<open>app-data\<close>, answered by the route over the data directory.\<close>

definition fetchData :: "'r dataDir \<Rightarrow> string \<Rightarrow> queryKey \<Rightarrow> 'r jsonBody" where
  "fetchData dir appId k =
     json (GET dir appId (Some (toString (fst k))) (Some (toString (snd k))))"

text \<open>
  The query function of \<open>app-meta\<close> followed by \<open>metaData?.totalCount || 0\<close>: an error
  body has no \<open>totalCount\<close>, which reads as 0.
\<close>

definition fetchMeta :: "'r dataDir \<Rightarrow> string \<Rightarrow> int" where
  "fetchMeta dir appId =
     (case json (GET dir appId (Some ''0'') (Some ''1'')) of
        DataBody records n \<Rightarrow> n
      | ErrorBody msg \<Rightarrow> 0)"

section \<open>The row cache: \<open>dataMap\<close>\<close>

text \<open>
  The \<open>dataMap\<close> memo as a function of its two dependencies, the query result and
  \<open>debouncedRange.start\<close>. No result, or a result without \<open>data\<close>, gives the empty map;
  otherwise the \<open>forEach\<close> loop stores record \<open>idx\<close> under \<open>start + idx\<close> in a fresh map.
\<close>

definition dataMap :: "'r jsonBody option \<Rightarrow> int \<Rightarrow> (int \<rightharpoonup> 'r)" where
  "dataMap queryData start' =
     (case queryData of
        None \<Rightarrow> Map.empty
      | Some (ErrorBody msg) \<Rightarrow> Map.empty
      | Some (DataBody records n) \<Rightarrow>
          fold (\<lambda>(idx, record) m. m(start' + int idx \<mapsto> record))
               (enumerate 0 records) Map.empty)"

section \<open>The mounted table as a state machine\<close>

text \<open>
  The hooks of the component, read as one machine. Its state holds what the hooks keep
  between renders: the total count from the meta query, the virtualizer's items, the
  pending debounce timer with the range its closure captured, the debounced range, and
  the query client's entries for the \<open>app-data\<close> keys. \<open>inflight\<close> are the keys with a
  request under way and \<open>issued\<close> logs every request in order.

  An entry of the query client is \<open>Loaded\<close> with the body and the time it arrived, or
  \<open>Failed\<close> when the only attempt so far was rejected; a key without entry has never
  been fetched or is being fetched for the first time.

  The machine relies on these rules of the platform and of the two libraries. React
  reruns an effect, cleanup first, when a dependency is a new object. A timeout runs its
  callback no earlier than its delay and not at all once cleared. The query client
  keeps one entry per query key; when an enabled query turns to a key whose entry is
  stale it starts a request, unless one for that key is under way, which it shares; a
  request whose key is no longer observed keeps running and its answer is stored under
  its own key; placeholder data is shown only while the observed key has neither data
  nor error, and it is read, at every render, from the query the observer last saw
  with data. A failing request is retried by the query client before it is rejected;
  the log counts it once. The provider switches refetching on window focus off;
  unmounting and refetching on network reconnection are left out.
\<close>

definition STALE_TIME :: nat where
  "STALE_TIME = 30000"

datatype 'r queryState = Loaded "'r jsonBody" nat | Failed

text \<open>
  The query the observer last saw with data: none yet, the entry of a key, or a query
  the client has dropped from its store, which keeps the body it had.
\<close>

datatype 'r queryRef = NoQuery | Cached queryKey | Detached "'r jsonBody"

record 'r table =
  totalCount' :: int
  virtualItems :: "virtualItem list"
  timer :: "(nat \<times> fetchRange) option"
  debouncedRange :: fetchRange
  cache :: "queryKey \<Rightarrow> 'r queryState option"
  lastWithData :: "'r queryRef"
  inflight :: "queryKey list"
  issued :: "queryKey list"
  now :: nat

text \<open>
  The events the machine reacts to: the meta query resolves; the virtualizer reports new
  items (a scroll or a resize); time passes; the debounce timer runs; a data request
  resolves with the route's answer over the data directory of that moment, or is
  rejected for good (the network failed or the body was not JSON); the query client
  drops the entry of a key nobody observes.
\<close>

datatype 'r event =
    MetaResolved "'r dataDir"
  | Scrolled "virtualItem list"
  | Elapsed nat
  | TimerFired
  | Resolved queryKey "'r dataDir"
  | Rejected queryKey
  | Collected queryKey

definition currentKey :: "'r table \<Rightarrow> queryKey" where
  "currentKey s = keyOf (debouncedRange s)"

text \<open>\<open>staleTime: 30000\<close>: an entry is stale once it is 30 seconds old or holds no data.\<close>

definition isStale :: "(queryKey \<Rightarrow> 'r queryState option) \<Rightarrow> nat \<Rightarrow> queryKey \<Rightarrow> bool" where
  "isStale c t k =
     (case c k of
        None \<Rightarrow> True
      | Some Failed \<Rightarrow> True
      | Some (Loaded body fetchedAt) \<Rightarrow> fetchedAt + STALE_TIME \<le> t)"

text \<open>
  What \<open>useQuery\<close> does when it starts to observe a key: nothing while
  \<open>enabled: totalCount > 0\<close> is false, while a request for the key is under way, or while
  the entry is fresh; otherwise it issues the request.
\<close>

definition startFetch :: "'r table \<Rightarrow> 'r table" where
  "startFetch s =
     (let k = currentKey s in
      if 0 < totalCount' s \<and> k \<notin> set (inflight s) \<and> isStale (cache s) (now s) k
      then s\<lparr>inflight := k # inflight s,
             issued := issued s @ [k],
             cache := (case cache s k of
                         Some Failed \<Rightarrow> (cache s)(k := None)
                       | _ \<Rightarrow> cache s)\<rparr>
      else s)"

text \<open>
  Whenever the observed key has data, the observer notes its query as the last one seen
  with data.
\<close>

definition remember :: "'r table \<Rightarrow> 'r table" where
  "remember s =
     (case cache s (currentKey s) of
        Some (Loaded body fetchedAt) \<Rightarrow> s\<lparr>lastWithData := Cached (currentKey s)\<rparr>
      | _ \<Rightarrow> s)"

text \<open>
  \<open>placeholderData: (previousData) => previousData\<close>: the argument is the data that the
  query last seen with data holds now, so an answer that reaches that query later is what
  the placeholder shows from then on.
\<close>

definition previousData :: "'r table \<Rightarrow> 'r jsonBody option" where
  "previousData s =
     (case lastWithData s of
        NoQuery \<Rightarrow> None
      | Cached k \<Rightarrow>
          (case cache s k of Some (Loaded body fetchedAt) \<Rightarrow> Some body | _ \<Rightarrow> None)
      | Detached body \<Rightarrow> Some body)"

text \<open>
  The debounce effect: its cleanup clears the pending timer and its body sets a new one,
  \<open>DEBOUNCE_MS\<close> from now, whose callback holds the \<open>visibleRange\<close> of this render.
\<close>

definition restartTimer :: "'r table \<Rightarrow> 'r table" where
  "restartTimer s =
     s\<lparr>timer := Some (now s + DEBOUNCE_MS, visibleRange (virtualItems s) (totalCount' s))\<rparr>"

text \<open>
  One event. \<open>None\<close> means the event cannot happen in this state: a timer that is not
  due, an answer to a request that is not under way, the collection of an entry in use.
  A new \<open>visibleRange\<close> object (new items, or a changed total count) reruns the effect; a
  timer callback stores its range, and only a changed key makes \<open>useQuery\<close> observe
  another entry.
\<close>

fun step :: "string \<Rightarrow> 'r event \<Rightarrow> 'r table \<Rightarrow> 'r table option" where
  "step appId (MetaResolved dir) s =
     (let n = fetchMeta dir appId;
          s1 = s\<lparr>totalCount' := n\<rparr>;
          s2 = (if n = totalCount' s then s1 else restartTimer s1)
      in Some (if totalCount' s \<le> 0 \<and> 0 < n then startFetch s2 else s2))"
| "step appId (Scrolled items) s = Some (restartTimer (s\<lparr>virtualItems := items\<rparr>))"
| "step appId (Elapsed d) s = Some (s\<lparr>now := now s + d\<rparr>)"
| "step appId TimerFired s =
     (case timer s of
        None \<Rightarrow> None
      | Some (deadline, r) \<Rightarrow>
          if now s < deadline then None
          else if keyOf r = currentKey s then Some (s\<lparr>debouncedRange := r, timer := None\<rparr>)
          else Some (remember (startFetch (s\<lparr>debouncedRange := r, timer := None\<rparr>))))"
| "step appId (Resolved k dir) s =
     (if k \<in> set (inflight s)
      then Some (remember
             (s\<lparr>inflight := removeAll k (inflight s),
                cache := (cache s)(k \<mapsto> Loaded (fetchData dir appId k) (now s))\<rparr>))
      else None)"
| "step appId (Rejected k) s =
     (if k \<in> set (inflight s)
      then Some (s\<lparr>inflight := removeAll k (inflight s),
                  cache := (case cache s k of
                              Some (Loaded body fetchedAt) \<Rightarrow> cache s
                            | _ \<Rightarrow> (cache s)(k \<mapsto> Failed))\<rparr>)
      else None)"
| "step appId (Collected k) s =
     (if k \<noteq> currentKey s \<and> k \<notin> set (inflight s)
      then Some (s\<lparr>cache := (cache s)(k := None),
                  lastWithData :=
                    (case lastWithData s of
                       Cached k' \<Rightarrow>
                         if k' = k
                         then (case cache s k of
                                 Some (Loaded body fetchedAt) \<Rightarrow> Detached body
                               | _ \<Rightarrow> NoQuery)
                         else Cached k'
                     | ref \<Rightarrow> ref)\<rparr>)
      else None)"

fun run :: "string \<Rightarrow> 'r event list \<Rightarrow> 'r table \<Rightarrow> 'r table option" where
  "run appId [] s = Some s"
| "run appId (e # es) s =
     (case step appId e s of None \<Rightarrow> None | Some s' \<Rightarrow> run appId es s')"

text \<open>
  The first render: no total count yet, no items, so \<open>visibleRange\<close> is the default
  range, which \<open>useState\<close> takes as the first debounced range and the effect puts on the
  first timer.
\<close>

definition mounted :: "'r table" where
  "mounted =
     \<lparr>totalCount' = 0, virtualItems = [],
      timer = Some (DEBOUNCE_MS, visibleRange [] 0),
      debouncedRange = visibleRange [] 0,
      cache = (\<lambda>k. None), lastWithData = NoQuery,
      inflight = [], issued = [], now = 0\<rparr>"

text \<open>
  What a render reads: \<open>queryData\<close> is the body of the observed key, the placeholder
  while that key is still without entry, and nothing once its request has failed; the
  row cache is \<open>dataMap\<close> of it and of the start of the debounced range.
\<close>

definition queryData :: "'r table \<Rightarrow> 'r jsonBody option" where
  "queryData s =
     (case cache s (currentKey s) of
        Some (Loaded body fetchedAt) \<Rightarrow> Some body
      | Some Failed \<Rightarrow> None
      | None \<Rightarrow> previousData s)"

definition tableDataMap :: "'r table \<Rightarrow> (int \<rightharpoonup> 'r)" where
  "tableDataMap s = dataMap (queryData s) (start (debouncedRange s))"

definition rowAt :: "int \<Rightarrow> 'r table \<Rightarrow> 'r option" where
  "rowAt i s = tableDataMap s i"

text \<open>The number of entries \<open>dataMap\<close> makes of a query result.\<close>

fun windowLength :: "'r jsonBody option \<Rightarrow> nat" where
  "windowLength None = 0"
| "windowLength (Some (ErrorBody msg)) = 0"
| "windowLength (Some (DataBody records n)) = length records"

text \<open>
  A burst of scrolling: only new virtual items and passing time, no timer callback and
  no answer in between.
\<close>

fun quiet :: "'r event \<Rightarrow> bool" where
  "quiet (Scrolled items) = True"
| "quiet (Elapsed d) = True"
| "quiet e = False"

text \<open>
  Ranges that arrive one after the other: each pair is the virtualizer's new items and
  the time that passes before the next items arrive.
\<close>

fun burst :: "(virtualItem list \<times> nat) list \<Rightarrow> 'r event list" where
  "burst [] = []"
| "burst ((items, gap) # rest) = Scrolled items # Elapsed gap # burst rest"

text \<open>
  The virtualizer never reports more than \<open>W\<close> rows at once (the rows in view plus the
  overscan): from the first to the last reported index there are at most \<open>W\<close> rows.
\<close>

definition visibleWithin :: "int \<Rightarrow> virtualItem list \<Rightarrow> bool" where
  "visibleWithin W items = (items = [] \<or> index (last items) - index (hd items) + 1 \<le> W)"

fun withinViewport :: "int \<Rightarrow> 'r event \<Rightarrow> bool" where
  "withinViewport W (Scrolled items) = visibleWithin W items"
| "withinViewport W e = True"

text \<open>
  The invariant behind the bound on the row cache: every range the table holds or has
  requested is at most \<open>2 * BUFFER_SIZE + W\<close> rows long, every request under way was
  logged, and every body the query client or the observer keeps is no longer than the
  range of a logged request.
\<close>

definition windowBounded :: "int \<Rightarrow> 'r table \<Rightarrow> bool" where
  "windowBounded W s =
     (visibleWithin W (virtualItems s) \<and>
      size_r (debouncedRange s) \<le> 2 * BUFFER_SIZE + W \<and>
      (\<forall>deadline r. timer s = Some (deadline, r) \<longrightarrow> size_r r \<le> 2 * BUFFER_SIZE + W) \<and>
      (\<forall>k \<in> set (issued s). snd k \<le> 2 * BUFFER_SIZE + W) \<and>
      set (inflight s) \<subseteq> set (issued s) \<and>
      (\<forall>k body t. cache s k = Some (Loaded body t) \<longrightarrow>
         k \<in> set (issued s) \<and> int (windowLength (Some body)) \<le> max 0 (snd k)) \<and>
      (\<forall>body. lastWithData s = Detached body \<longrightarrow>
         (\<exists>k \<in> set (issued s). int (windowLength (Some body)) \<le> max 0 (snd k))))"

text \<open>Sample data directories: \<open>n\<close> records for \<open>app_1\<close>, each its own row index.\<close>

definition seeded :: "nat \<Rightarrow> nat dataDir" where
  "seeded n path = (if path = ''app_1_data.json'' then Some (JsonArray [0..<n]) else None)"

definition corrupted :: "nat dataDir" where
  "corrupted path = Some Unparsable"

section \<open>Properties of the window calculator\<close>

lemma visibleRange_nonempty:
  assumes "items \<noteq> []"
  shows "visibleRange items rowCount =
           \<lparr>start = max 0 (index (hd items) - BUFFER_SIZE),
            size_r = min (rowCount - 1) (index (last items) + BUFFER_SIZE)
                     - max 0 (index (hd items) - BUFFER_SIZE) + 1\<rparr>"
  using assms by (simp add: visibleRange_def Let_def hd_conv_nth last_conv_nth)

lemma rows_nonempty: "lo \<le> hi \<Longrightarrow> rows lo hi \<noteq> []"
  by (simp add: rows_def upto.simps)

lemma hd_rows: "lo \<le> hi \<Longrightarrow> index (hd (rows lo hi)) = lo"
  by (simp add: rows_def upto.simps)

lemma last_rows: "lo \<le> hi \<Longrightarrow> index (last (rows lo hi)) = hi"
  by (simp add: rows_def last_map upto_rec2)

lemma map_index_rows: "map index (rows lo hi) = [lo..hi]"
  by (simp add: rows_def comp_def)

text \<open>
  Claim C1. For a non-empty list of visible items and any total count, the window
  calculator returns \<open>start = max(0, firstVisible - BUFFER)\<close> and
  \<open>size = end - start + 1\<close> with \<open>end = min(totalCount - 1, lastVisible + BUFFER)\<close>, where
  \<open>BUFFER\<close> is 20; and for the items with indices 2000 to 2012 out of 50000 rows the
  window is \<open>{start: 1980, size: 53}\<close>.
\<close>

theorem visibleRange_formula:
  assumes "items \<noteq> []"
  shows "BUFFER_SIZE = 20 \<and>
         (\<exists>end'. end' = min (rowCount - 1) (index (last items) + BUFFER_SIZE) \<and>
            visibleRange items rowCount =
              \<lparr>start = max 0 (index (hd items) - BUFFER_SIZE),
               size_r = end' - max 0 (index (hd items) - BUFFER_SIZE) + 1\<rparr>) \<and>
         (map index items = [2000..2012] \<longrightarrow>
            visibleRange items 50000 = \<lparr>start = 1980, size_r = 53\<rparr>)"
proof (intro conjI impI)
  show "BUFFER_SIZE = 20" by (simp add: BUFFER_SIZE_def)
  show "\<exists>end'. end' = min (rowCount - 1) (index (last items) + BUFFER_SIZE) \<and>
            visibleRange items rowCount =
              \<lparr>start = max 0 (index (hd items) - BUFFER_SIZE),
               size_r = end' - max 0 (index (hd items) - BUFFER_SIZE) + 1\<rparr>"
    using assms by (simp add: visibleRange_nonempty)
next
  assume m: "map index items = [2000..2012]"
  have "index (hd items) = hd (map index items)"
    using assms by (simp add: hd_map)
  then have h: "index (hd items) = 2000"
    by (simp add: m upto.simps)
  have "index (last items) = last (map index items)"
    using assms by (simp add: last_map)
  then have l: "index (last items) = 2012"
    by (simp add: m upto_rec2)
  show "visibleRange items 50000 = \<lparr>start = 1980, size_r = 53\<rparr>"
    using assms by (simp add: visibleRange_nonempty h l BUFFER_SIZE_def)
qed

theorem visibleRange_formula_witness:
  "rows 2000 2012 \<noteq> [] \<and> map index (rows 2000 2012) = [2000..2012] \<and>
   visibleRange (rows 2000 2012) 50000 = \<lparr>start = 1980, size_r = 53\<rparr>"
proof -
  have ne: "rows 2000 2012 \<noteq> []" by (simp add: rows_nonempty)
  have m: "map index (rows 2000 2012) = [2000..2012]" by (rule map_index_rows)
  from visibleRange_formula [OF ne, of 50000] m
  have "visibleRange (rows 2000 2012) 50000 = \<lparr>start = 1980, size_r = 53\<rparr>" by blast
  with ne m show ?thesis by blast
qed

text \<open>
  Claim C2. For a positive total count and visible indices with
  \<open>0 \<le> firstVisible \<le> lastVisible \<le> totalCount - 1\<close>, the window starts at or after row 0
  and its last row \<open>start + size - 1\<close> is at most \<open>totalCount - 1\<close>; when the last visible
  row is the last record, the window ends exactly there.
\<close>

theorem visibleRange_within_dataset:
  assumes "items \<noteq> []"
    and "0 < rowCount"
    and "0 \<le> index (hd items)"
    and "index (hd items) \<le> index (last items)"
    and "index (last items) \<le> rowCount - 1"
  shows "0 \<le> start (visibleRange items rowCount) \<and>
         start (visibleRange items rowCount)
           + size_r (visibleRange items rowCount) - 1 \<le> rowCount - 1 \<and>
         0 < size_r (visibleRange items rowCount) \<and>
         (index (last items) = rowCount - 1 \<longrightarrow>
            start (visibleRange items rowCount)
              + size_r (visibleRange items rowCount) - 1 = rowCount - 1)"
  using assms by (auto simp add: visibleRange_nonempty BUFFER_SIZE_def)

theorem visibleRange_within_dataset_witness:
  "start (visibleRange (rows 49980 49999) 50000) = 49960 \<and>
   size_r (visibleRange (rows 49980 49999) 50000) = 40 \<and>
   start (visibleRange (rows 49980 49999) 50000)
     + size_r (visibleRange (rows 49980 49999) 50000) - 1 = 50000 - 1"
proof -
  have ne: "rows 49980 49999 \<noteq> []" by (simp add: rows_nonempty)
  have h: "index (hd (rows 49980 49999)) = 49980" by (simp add: hd_rows)
  have l: "index (last (rows 49980 49999)) = 49999" by (simp add: last_rows)
  have "start (visibleRange (rows 49980 49999) 50000)
          + size_r (visibleRange (rows 49980 49999) 50000) - 1 = 50000 - 1"
    using visibleRange_within_dataset [OF ne, of 50000] h l by simp
  moreover have "start (visibleRange (rows 49980 49999) 50000) = 49960"
    using ne by (simp add: visibleRange_nonempty h BUFFER_SIZE_def)
  moreover have "size_r (visibleRange (rows 49980 49999) 50000) = 40"
    using ne by (simp add: visibleRange_nonempty h l BUFFER_SIZE_def)
  ultimately show ?thesis by blast
qed

section \<open>Properties of the range store\<close>

lemma seeded_file: "seeded n (dataFile ''app_1'') = Some (JsonArray [0..<n])"
  by (simp add: seeded_def dataFile_def)

lemma js_slice_window:
  assumes "0 \<le> s" and "0 < n"
  shows "js_slice xs s (s + n) = take (nat n) (drop (nat s) xs)"
proof (cases "s \<le> int (length xs)")
  case True
  show ?thesis
  proof (cases "s + n \<le> int (length xs)")
    case True
    with assms \<open>s \<le> int (length xs)\<close> show ?thesis
      by (simp add: js_slice_def Let_def min_def)
  next
    case False
    then have "length (drop (nat s) xs) \<le> nat n" using assms by simp
    then have "take (nat n) (drop (nat s) xs) = drop (nat s) xs" by simp
    moreover have "length (drop (nat s) xs) \<le> nat (int (length xs) - s)"
      using assms by simp
    then have "take (nat (int (length xs) - s)) (drop (nat s) xs) = drop (nat s) xs" by simp
    ultimately show ?thesis
      using assms False True by (simp add: js_slice_def Let_def min_def)
  qed
next
  case False
  with assms show ?thesis
    by (simp add: js_slice_def Let_def min_def)
qed

lemma window_length:
  assumes "0 \<le> s" and "0 < n"
  shows "int (length (take (nat n) (drop (nat s) xs))) = max 0 (min (s + n) (int (length xs)) - s)"
  using assms by (auto simp add: min_def max_def)

lemma window_length_le:
  assumes "0 < n"
  shows "int (length (take (nat n) (drop (nat s) xs))) \<le> n"
  using assms by (auto simp add: min_def)

lemma window_short:
  assumes "0 \<le> s" and "0 < n"
    and "int (length (take (nat n) (drop (nat s) xs))) < n"
  shows "int (length xs) < s + n"
  using assms by (auto simp add: min_def split: if_splits)

lemma window_nth:
  assumes "i < length (take (nat n) (drop (nat s) xs))"
  shows "take (nat n) (drop (nat s) xs) ! i = xs ! (nat s + i)"
  using assms by auto

lemma getAppDataRange_array:
  assumes "dir (dataFile appId) = Some (JsonArray allData)" and "0 \<le> s" and "0 < n"
  shows "getAppDataRange dir appId s n =
           Inr \<lparr>data = take (nat n) (drop (nat s) allData), totalCount = int (length allData)\<rparr>"
  using assms by (simp add: getAppDataRange_def js_slice_window)

lemma getAppDataRange_length:
  assumes "getAppDataRange dir appId s n = Inr r" and "0 \<le> s" and "0 < n"
  shows "int (length (data r)) \<le> n"
proof (cases "dir (dataFile appId)")
  case None
  with assms show ?thesis by (auto simp add: getAppDataRange_def)
next
  case (Some content)
  show ?thesis
  proof (cases content)
    case Unparsable
    with Some assms(1) show ?thesis by (simp add: getAppDataRange_def)
  next
    case (JsonArray allData)
    with Some have "dir (dataFile appId) = Some (JsonArray allData)" by simp
    from getAppDataRange_array [of dir appId allData s n] this assms
    have "data r = take (nat n) (drop (nat s) allData)" by auto
    with window_length_le [OF assms(3), of s allData] show ?thesis by simp
  qed
qed

text \<open>
  Claim C8. For \<open>start \<ge> 0\<close> and \<open>size > 0\<close> the range store does not fail when
  \<open>start + size\<close> exceeds the total count: it returns the records from index \<open>start\<close> up to
  \<open>min(start + size, totalCount)\<close>, so at most \<open>size\<close> of them, and fewer than \<open>size\<close> only
  when \<open>start + size > totalCount\<close>.
\<close>

theorem getAppDataRange_clamps:
  assumes "dir (dataFile appId) = Some (JsonArray allData)"
    and "0 \<le> s" and "0 < n"
  shows "\<exists>r. getAppDataRange dir appId s n = Inr r \<and>
           totalCount r = int (length allData) \<and>
           data r = take (nat n) (drop (nat s) allData) \<and>
           int (length (data r)) = max 0 (min (s + n) (totalCount r) - s) \<and>
           (\<forall>i < length (data r). data r ! i = allData ! (nat s + i)) \<and>
           int (length (data r)) \<le> n \<and>
           (int (length (data r)) < n \<longrightarrow> totalCount r < s + n)"
proof -
  let ?r = "\<lparr>data = take (nat n) (drop (nat s) allData), totalCount = int (length allData)\<rparr>"
  have "getAppDataRange dir appId s n = Inr ?r"
    using assms by (rule getAppDataRange_array)
  moreover have "int (length (data ?r)) = max 0 (min (s + n) (totalCount ?r) - s)"
    using window_length [OF assms(2,3), of allData] by simp
  moreover have "\<forall>i < length (data ?r). data ?r ! i = allData ! (nat s + i)"
    using window_nth [of _ n s allData] by simp
  moreover have "int (length (data ?r)) \<le> n"
    using window_length_le [OF assms(3), of s allData] by simp
  moreover have "int (length (data ?r)) < n \<longrightarrow> totalCount ?r < s + n"
    using window_short [OF assms(2,3), of allData] by simp
  ultimately show ?thesis by (intro exI [of _ ?r]) simp
qed

theorem getAppDataRange_clamps_witness:
  "\<exists>r. getAppDataRange (seeded 6) ''app_1'' 4 10 = Inr r \<and>
       data r = [4, 5] \<and> totalCount r = 6 \<and> int (length (data r)) < 10"
proof -
  have u: "take (nat 10) (drop (nat 4) [0..<6]) = [4, 5]" by simp
  have f: "seeded 6 (dataFile ''app_1'') = Some (JsonArray [0..<6])" by (rule seeded_file)
  from getAppDataRange_clamps [of "seeded 6" "''app_1''" "[0..<6]" 4 10, OF f]
  obtain r where "getAppDataRange (seeded 6) ''app_1'' 4 10 = Inr r"
    and "totalCount r = int (length [0..<6])"
    and "data r = take (nat 10) (drop (nat 4) [0..<6])"
    by auto
  then show ?thesis by (simp add: u)
qed

section \<open>Properties of the route handler\<close>

text \<open>
  Claim C10. A missing or empty \<open>start\<close> is read as 0 and a missing or empty \<open>size\<close> as
  50; the defaults pass validation, so a request without parameters is answered with
  the first 50 records.
\<close>

theorem GET_defaults:
  assumes "p = None \<or> p = Some []" and "q = None \<or> q = Some []"
  shows "GET dir appId p z = GET dir appId (Some ''0'') z \<and>
         GET dir appId a q = GET dir appId a (Some ''50'') \<and>
         GET dir appId p q =
           (case getAppDataRange dir appId 0 50 of
              Inr result \<Rightarrow> Json200 result
            | Inl e \<Rightarrow> Json500 ''Internal server error'') \<and>
         (\<forall>msg. GET dir appId p q \<noteq> Json400 msg) \<and>
         (\<forall>allData. dir (dataFile appId) = Some (JsonArray allData) \<longrightarrow>
            GET dir appId p q =
              Json200 \<lparr>data = take 50 allData, totalCount = int (length allData)\<rparr>)"
proof -
  have p0: "parseInt ''0'' = Some 0" by code_simp
  have p50: "parseInt ''50'' = Some 50" by code_simp
  have 1: "GET dir appId p z = GET dir appId (Some ''0'') z"
    using assms(1) by (auto simp add: GET_def p0)
  have 2: "GET dir appId a q = GET dir appId a (Some ''50'')"
    using assms(2) by (auto simp add: GET_def p50)
  have 3: "GET dir appId p q =
           (case getAppDataRange dir appId 0 50 of
              Inr result \<Rightarrow> Json200 result
            | Inl e \<Rightarrow> Json500 ''Internal server error'')"
    using assms by (auto simp add: GET_def split: sum.splits)
  have 4: "\<forall>msg. GET dir appId p q \<noteq> Json400 msg"
    by (simp add: 3 split: sum.splits)
  have 5: "\<forall>allData. dir (dataFile appId) = Some (JsonArray allData) \<longrightarrow>
            GET dir appId p q =
              Json200 \<lparr>data = take 50 allData, totalCount = int (length allData)\<rparr>"
    by (auto simp add: 3 getAppDataRange_def js_slice_def min_def)
  from 1 2 3 4 5 show ?thesis by blast
qed

theorem GET_defaults_witness:
  "GET (seeded 60) ''app_1'' None None = Json200 \<lparr>data = [0..<50], totalCount = 60\<rparr> \<and>
   GET (seeded 60) ''app_1'' (Some []) None = GET (seeded 60) ''app_1'' (Some ''0'') None"
proof -
  have n: "(None :: string option) = None \<or> (None :: string option) = Some []" by simp
  have e: "Some ([] :: string) = None \<or> Some ([] :: string) = Some []" by simp
  have "GET (seeded 60) ''app_1'' None None
          = Json200 \<lparr>data = take 50 [0..<60], totalCount = int (length [0..<60])\<rparr>"
    using GET_defaults [OF n n, of "seeded 60" "''app_1''"] seeded_file [of 60] by blast
  moreover have "GET (seeded 60) ''app_1'' (Some []) None
                   = GET (seeded 60) ''app_1'' (Some ''0'') None"
    using GET_defaults [OF e n, of "seeded 60" "''app_1''"] by blast
  ultimately show ?thesis by simp
qed

section \<open>Properties of the requests\<close>

text \<open>Decimal text parses back to the number it renders.\<close>

lemma of_char_digit: "d < 10 \<Longrightarrow> (of_char (char_of (48 + d :: nat)) :: nat) = 48 + d"
  by (simp add: of_char_of)

lemma isDigit_char_of: "d < 10 \<Longrightarrow> isDigit (char_of (48 + d :: nat))"
  by (simp add: isDigit_def of_char_digit)

lemma digitValue_char_of: "d < 10 \<Longrightarrow> digitValue (char_of (48 + d :: nat)) = int d"
  by (simp add: digitValue_def of_char_digit)

lemma digits_all: "c \<in> set (digits n) \<Longrightarrow> isDigit c"
proof (induction n arbitrary: c rule: digits.induct)
  case (1 n)
  show ?case
  proof (cases "n < 10")
    case True
    with "1.prems" show ?thesis by (simp add: digits.simps [of n] isDigit_char_of)
  next
    case False
    with "1.prems" "1.IH" show ?thesis
      by (auto simp add: digits.simps [of n] isDigit_char_of)
  qed
qed

lemma digits_nonempty: "digits n \<noteq> []"
  by (subst digits.simps) simp

lemma digits_value: "foldl (\<lambda>acc c. 10 * acc + digitValue c) 0 (digits n) = int n"
proof (induction n rule: digits.induct)
  case (1 n)
  show ?case
  proof (cases "n < 10")
    case True
    then show ?thesis by (simp add: digits.simps [of n] digitValue_char_of)
  next
    case False
    have "int (10 * (n div 10) + n mod 10) = int n" by simp
    then have "10 * int (n div 10) + int (n mod 10) = int n" by (simp only: of_nat_add of_nat_mult of_nat_numeral)
    with False "1.IH" show ?thesis
      by (simp add: digits.simps [of n] digitValue_char_of)
  qed
qed

lemma isDigit_simps: "isDigit c \<Longrightarrow> \<not> isWhiteSpace c \<and> c \<noteq> CHR ''-'' \<and> c \<noteq> CHR ''+''"
  by (auto simp add: isDigit_def isWhiteSpace_def)

lemma parseInt_all_digits:
  assumes "ds \<noteq> []" and "\<forall>x \<in> set ds. isDigit x"
  shows "parseInt ds = Some (foldl (\<lambda>acc c. 10 * acc + digitValue c) 0 ds)"
    and "parseInt (CHR ''-'' # ds) = Some (- foldl (\<lambda>acc c. 10 * acc + digitValue c) 0 ds)"
proof -
  obtain c cs where d: "ds = c # cs"
    using assms(1) by (cases ds) auto
  have c: "isDigit c" using assms(2) by (simp add: d)
  have tw: "takeWhile isDigit cs = cs"
    using assms(2) unfolding d by (simp add: takeWhile_eq_all_conv)
  have ws: "\<not> isWhiteSpace CHR ''-''" by (simp add: isWhiteSpace_def)
  note facts = isDigit_simps [OF c]
  show "parseInt ds = Some (foldl (\<lambda>acc c. 10 * acc + digitValue c) 0 ds)"
    by (simp add: parseInt_def d Let_def facts c tw del: takeWhile_eq_all_conv)
  show "parseInt (CHR ''-'' # ds) = Some (- foldl (\<lambda>acc c. 10 * acc + digitValue c) 0 ds)"
    by (simp add: parseInt_def d Let_def ws c tw del: takeWhile_eq_all_conv)
qed

lemma parseInt_digits: "parseInt (digits n) = Some (int n)"
  using parseInt_all_digits(1) [OF digits_nonempty, of n] digits_all digits_value by simp

lemma parseInt_minus_digits: "parseInt (CHR ''-'' # digits n) = Some (- int n)"
  using parseInt_all_digits(2) [OF digits_nonempty, of n] digits_all digits_value by simp

lemma parseInt_toString: "parseInt (toString n) = Some n"
  by (simp add: toString_def parseInt_digits parseInt_minus_digits)

lemma toString_nonempty: "toString n \<noteq> []"
  by (simp add: toString_def digits_nonempty)

lemma GET_toString:
  "GET dir appId (Some (toString a)) (Some (toString n)) =
     (if a < 0 then Json400 ''Invalid start parameter''
      else if n \<le> 0 \<or> 1000 < n
        then Json400 ''Invalid size parameter (must be between 1 and 1000)''
      else (case getAppDataRange dir appId a n of
              Inr result \<Rightarrow> Json200 result
            | Inl e \<Rightarrow> Json500 ''Internal server error''))"
  by (simp add: GET_def parseInt_toString toString_nonempty split: sum.splits)

subsection \<open>What the handler reads from a request text\<close>

lemma sign_not_space: "\<not> isWhiteSpace CHR ''+''" "\<not> isWhiteSpace CHR ''-''"
  by (simp_all add: isWhiteSpace_def)

lemma dropWhile_space:
  assumes "\<forall>c \<in> set ws. isWhiteSpace c" and "rest = [] \<or> \<not> isWhiteSpace (hd rest)"
  shows "dropWhile isWhiteSpace (ws @ rest) = rest"
proof -
  have "dropWhile isWhiteSpace (ws @ rest) = dropWhile isWhiteSpace rest"
    using assms(1) by (simp add: dropWhile_append2)
  also have "\<dots> = rest" using assms(2) by (cases rest) auto
  finally show ?thesis .
qed

lemma takeWhile_digits:
  assumes "\<forall>c \<in> set Z. isDigit c" and "t = [] \<or> \<not> isDigit (hd t)"
  shows "takeWhile isDigit (Z @ t) = Z"
proof -
  have "takeWhile isDigit (Z @ t) = Z @ takeWhile isDigit t"
    using assms(1) by (simp add: takeWhile_append2)
  moreover have "takeWhile isDigit t = []" using assms(2) by (cases t) auto
  ultimately show ?thesis by simp
qed

lemma parseInt_after_space:
  assumes "\<forall>c \<in> set ws. isWhiteSpace c" and "rest = [] \<or> \<not> isWhiteSpace (hd rest)"
  shows "parseInt (ws @ rest) = parseInt rest"
proof -
  have a: "dropWhile isWhiteSpace (ws @ rest) = rest" using assms by (rule dropWhile_space)
  have b: "dropWhile isWhiteSpace rest = rest" using assms(2) by (cases rest) auto
  show ?thesis by (simp only: parseInt_def a b)
qed

lemma parseInt_number:
  assumes "Z \<noteq> []" and "\<forall>c \<in> set Z. isDigit c" and "t = [] \<or> \<not> isDigit (hd t)"
  shows "parseInt (Z @ t) = Some (decimal Z)"
    and "parseInt (CHR ''+'' # Z @ t) = Some (decimal Z)"
    and "parseInt (CHR ''-'' # Z @ t) = Some (- decimal Z)"
proof -
  obtain c cs where Z: "Z = c # cs" using assms(1) by (cases Z) auto
  have c: "isDigit c" using assms(2) by (simp add: Z)
  note nc = isDigit_simps [OF c]
  have tw: "takeWhile isDigit (c # cs @ t) = c # cs"
    using takeWhile_digits [OF assms(2,3)] by (simp add: Z)
  have d1: "dropWhile isWhiteSpace (c # cs @ t) = c # cs @ t" using nc by simp
  show "parseInt (Z @ t) = Some (decimal Z)"
    unfolding parseInt_def Z append_Cons d1 Let_def list.case
    using nc by (simp add: tw del: takeWhile.simps)
  have d2: "dropWhile isWhiteSpace (CHR ''+'' # c # cs @ t) = CHR ''+'' # c # cs @ t"
    using sign_not_space by simp
  show "parseInt (CHR ''+'' # Z @ t) = Some (decimal Z)"
    unfolding parseInt_def Z append_Cons d2 Let_def list.case
    by (simp add: tw del: takeWhile.simps)
  have d3: "dropWhile isWhiteSpace (CHR ''-'' # c # cs @ t) = CHR ''-'' # c # cs @ t"
    using sign_not_space by simp
  show "parseInt (CHR ''-'' # Z @ t) = Some (- decimal Z)"
    unfolding parseInt_def Z append_Cons d3 Let_def list.case
    by (simp add: tw del: takeWhile.simps)
qed

lemma parseInt_no_number:
  assumes "t = [] \<or> \<not> isDigit (hd t)"
  shows "t = [] \<or> (\<not> isWhiteSpace (hd t) \<and> hd t \<noteq> CHR ''+'' \<and> hd t \<noteq> CHR ''-'')
           \<Longrightarrow> parseInt t = None"
    and "parseInt (CHR ''+'' # t) = None"
    and "parseInt (CHR ''-'' # t) = None"
proof -
  have tw: "takeWhile isDigit t = []" using assms by (cases t) auto
  show "parseInt t = None"
    if "t = [] \<or> (\<not> isWhiteSpace (hd t) \<and> hd t \<noteq> CHR ''+'' \<and> hd t \<noteq> CHR ''-'')"
    using that tw by (cases t) (auto simp add: parseInt_def Let_def split: if_splits)
  show "parseInt (CHR ''+'' # t) = None"
    using tw sign_not_space by (simp add: parseInt_def Let_def)
  show "parseInt (CHR ''-'' # t) = None"
    using tw sign_not_space by (simp add: parseInt_def Let_def)
qed


lemma zero_digit: "isDigit CHR ''0''" "digitValue CHR ''0'' = 0"
  by (simp_all add: isDigit_def digitValue_def)

lemma decimal_zeros: "decimal (replicate k CHR ''0'') = 0"
  by (induction k) (simp_all add: zero_digit)

lemma zeros_digits_all: "\<forall>c \<in> set (replicate k CHR ''0'' @ digits m). isDigit c"
  using digits_all by (auto simp add: zero_digit)

lemma parseInt_integerText:
  assumes "leads ws sg" and "stops t"
  shows "parseInt (integerText ws sg k m t) = Some (if sg = ''-'' then - int m else int m)"
proof -
  let ?Z = "replicate k CHR ''0'' @ digits m"
  have ws: "\<forall>c \<in> set ws. isWhiteSpace c" using assms(1) by (simp add: leads_def list_all_iff)
  have Z: "?Z \<noteq> []" by (simp add: digits_nonempty)
  have t: "t = [] \<or> \<not> isDigit (hd t)" using assms(2) by (simp add: stops_def)
  note num = parseInt_number [OF Z zeros_digits_all t]
  have hdZ: "isDigit (hd (?Z @ t))"
    using Z zeros_digits_all [of k m] by (cases ?Z) auto
  from assms(1) consider "sg = []" | "sg = ''+''" | "sg = ''-''" by (auto simp add: leads_def)
  then show ?thesis
  proof cases
    case 1
    have "parseInt (ws @ ?Z @ t) = parseInt (?Z @ t)"
      using ws isDigit_simps [OF hdZ] by (intro parseInt_after_space) auto
    with 1 num(1) show ?thesis by (simp add: integerText_def decimal_zeros digits_value)
  next
    case 2
    have "parseInt (ws @ CHR ''+'' # ?Z @ t) = parseInt (CHR ''+'' # ?Z @ t)"
      using ws sign_not_space by (intro parseInt_after_space) auto
    with 2 num(2) show ?thesis by (simp add: integerText_def decimal_zeros digits_value)
  next
    case 3
    have "parseInt (ws @ CHR ''-'' # ?Z @ t) = parseInt (CHR ''-'' # ?Z @ t)"
      using ws sign_not_space by (intro parseInt_after_space) auto
    with 3 num(3) show ?thesis by (simp add: integerText_def decimal_zeros digits_value)
  qed
qed

lemma parseInt_digitless:
  assumes "leads ws sg" and "digitless sg t"
  shows "parseInt (ws @ sg @ t) = None"
proof -
  have ws: "\<forall>c \<in> set ws. isWhiteSpace c" using assms(1) by (simp add: leads_def list_all_iff)
  have t: "t = [] \<or> \<not> isDigit (hd t)" using assms(2) by (simp add: digitless_def stops_def)
  note non = parseInt_no_number [OF t]
  from assms(1) consider "sg = []" | "sg = ''+''" | "sg = ''-''" by (auto simp add: leads_def)
  then show ?thesis
  proof cases
    case 1
    then have f: "t = [] \<or> (\<not> isWhiteSpace (hd t) \<and> hd t \<noteq> CHR ''+'' \<and> hd t \<noteq> CHR ''-'')"
      using assms(2) by (simp add: digitless_def)
    have "parseInt (ws @ t) = parseInt t"
      using ws f by (intro parseInt_after_space) auto
    with 1 non(1) [OF f] show ?thesis by simp
  next
    case 2
    have "parseInt (ws @ CHR ''+'' # t) = parseInt (CHR ''+'' # t)"
      using ws sign_not_space by (intro parseInt_after_space) auto
    with 2 non(2) show ?thesis by simp
  next
    case 3
    have "parseInt (ws @ CHR ''-'' # t) = parseInt (CHR ''-'' # t)"
      using ws sign_not_space by (intro parseInt_after_space) auto
    with 3 non(3) show ?thesis by simp
  qed
qed

text \<open>Every run of decimal digits is some zeros followed by the rendering of a number.\<close>

lemma char_of_48: "char_of (48 :: nat) = CHR ''0''"
proof -
  have "(of_char CHR ''0'' :: nat) = 48" by simp
  then have "char_of (48 :: nat) = char_of (of_char CHR ''0'' :: nat)" by simp
  then show ?thesis by (simp only: char_of_char)
qed

lemma char_of_digitValue: "isDigit c \<Longrightarrow> char_of (48 + nat (digitValue c)) = c"
proof -
  assume "isDigit c"
  then have "48 \<le> (of_char c :: nat)" by (simp add: isDigit_def)
  then have "48 + nat (digitValue c) = (of_char c :: nat)"
    unfolding digitValue_def by linarith
  then show ?thesis by (simp only: char_of_char)
qed

lemma digitValue_range: "isDigit c \<Longrightarrow> 0 \<le> digitValue c \<and> digitValue c < 10"
  by (auto simp add: isDigit_def digitValue_def)

lemma digitValue_zero: "isDigit c \<Longrightarrow> digitValue c = 0 \<Longrightarrow> c = CHR ''0''"
  using char_of_digitValue [of c] by (simp add: char_of_48)

lemma digits_decimal:
  "Y \<noteq> [] \<Longrightarrow> \<forall>c \<in> set Y. isDigit c \<Longrightarrow> hd Y \<noteq> CHR ''0'' \<Longrightarrow>
     digits (nat (decimal Y)) = Y \<and> 0 < decimal Y"
proof (induction Y rule: rev_induct)
  case Nil
  then show ?case by simp
next
  case (snoc c Y)
  have c: "isDigit c" using snoc.prems(2) by simp
  note r = digitValue_range [OF c]
  show ?case
  proof (cases "Y = []")
    case True
    with snoc.prems(3) have "c \<noteq> CHR ''0''" by simp
    with digitValue_zero [OF c] r have p: "0 < digitValue c" by fastforce
    have "nat (digitValue c) < 10" using r by linarith
    then have "digits (nat (digitValue c)) = [c]"
      by (simp add: digits.simps [of "nat (digitValue c)"] char_of_digitValue [OF c])
    with True p show ?thesis by simp
  next
    case False
    with snoc have ih: "digits (nat (decimal Y)) = Y" "0 < decimal Y" by auto
    define v where "v = nat (decimal Y)"
    define d where "d = nat (digitValue c)"
    have v: "decimal Y = int v" "0 < v" using ih(2) by (simp_all add: v_def)
    have d: "digitValue c = int d" "d < 10" using r unfolding d_def by linarith+
    have n: "nat (decimal (Y @ [c])) = 10 * v + d"
      by (simp add: v d nat_add_distrib nat_mult_distrib)
    have "digits (10 * v + d) = digits v @ [char_of (48 + d)]"
      using v(2) d(2) by (simp add: digits.simps [of "10 * v + d"])
    also have "\<dots> = Y @ [c]"
      using ih(1) char_of_digitValue [OF c] by (simp add: v_def d_def)
    finally have "digits (nat (decimal (Y @ [c]))) = Y @ [c]" by (simp only: n)
    moreover have "0 < decimal (Y @ [c])" using v d by simp
    ultimately show ?thesis by blast
  qed
qed

lemma digit_run_form:
  assumes "Z \<noteq> []" and "\<forall>c \<in> set Z. isDigit c"
  shows "\<exists>k m. Z = replicate k CHR ''0'' @ digits m"
proof -
  define k where "k = length (takeWhile (\<lambda>c. c = CHR ''0'') Z)"
  define Y where "Y = dropWhile (\<lambda>c. c = CHR ''0'') Z"
  have tk: "takeWhile (\<lambda>c. c = CHR ''0'') Z = replicate k CHR ''0''"
    unfolding k_def by (induction Z) auto
  have Z: "Z = replicate k CHR ''0'' @ Y"
    using takeWhile_dropWhile_id [of "\<lambda>c. c = CHR ''0''" Z] by (simp add: tk Y_def)
  show ?thesis
  proof (cases "Y = []")
    case True
    with Z assms(1) obtain j where j: "k = Suc j" by (cases k) auto
    have d0: "digits 0 = ''0''" by (simp add: digits.simps [of 0] char_of_48)
    have "Z = replicate j CHR ''0'' @ digits 0"
      using Z True by (simp add: j d0 replicate_append_same)
    then show ?thesis by blast
  next
    case False
    have h: "hd Y \<noteq> CHR ''0''"
      using False hd_dropWhile [of "\<lambda>c. c = CHR ''0''" Z] by (simp add: Y_def)
    have a: "\<forall>c \<in> set Y. isDigit c" using assms(2) Z by (metis Un_iff set_append)
    from digits_decimal [OF False a h] have "Z = replicate k CHR ''0'' @ digits (nat (decimal Y))"
      using Z by simp
    then show ?thesis by blast
  qed
qed

lemma text_cases:
  "(\<exists>ws sg k m t. leads ws sg \<and> stops t \<and> s = integerText ws sg k m t) \<or>
   (\<exists>ws sg t. leads ws sg \<and> digitless sg t \<and> s = ws @ sg @ t)"
proof -
  define ws where "ws = takeWhile isWhiteSpace s"
  define S where "S = dropWhile isWhiteSpace s"
  define sg where "sg = (case S of c # r \<Rightarrow> if c = CHR ''+'' \<or> c = CHR ''-'' then [c] else [] | [] \<Rightarrow> [])"
  define u where "u = drop (length sg) S"
  define Z where "Z = takeWhile isDigit u"
  define t where "t = dropWhile isDigit u"
  have s: "s = ws @ S" by (simp add: ws_def S_def)
  have S: "S = sg @ u" by (cases S) (auto simp add: sg_def u_def)
  have u: "u = Z @ t" by (simp add: Z_def t_def)
  have l: "leads ws sg"
    by (cases S) (auto simp add: leads_def list_all_iff ws_def sg_def dest: set_takeWhileD)
  have st: "stops t"
    using hd_dropWhile [of isDigit u] by (auto simp add: stops_def t_def)
  have hS: "S = [] \<or> \<not> isWhiteSpace (hd S)"
    using hd_dropWhile [of isWhiteSpace s] by (auto simp add: S_def)
  show ?thesis
  proof (cases "Z = []")
    case True
    have "sg = [] \<longrightarrow> t = [] \<or> (\<not> isWhiteSpace (hd t) \<and> hd t \<noteq> CHR ''+'' \<and> hd t \<noteq> CHR ''-'')"
    proof
      assume e: "sg = []"
      then have "S = t" using S u True by simp
      with hS e show "t = [] \<or> (\<not> isWhiteSpace (hd t) \<and> hd t \<noteq> CHR ''+'' \<and> hd t \<noteq> CHR ''-'')"
        by (cases S) (auto simp add: sg_def split: if_splits)
    qed
    with st have "digitless sg t" by (simp add: digitless_def)
    moreover have "s = ws @ sg @ t" using s S u True by simp
    ultimately show ?thesis using l by blast
  next
    case False
    have "\<forall>c \<in> set Z. isDigit c" by (auto simp add: Z_def dest: set_takeWhileD)
    from digit_run_form [OF False this] obtain k m where "Z = replicate k CHR ''0'' @ digits m"
      by blast
    then have "s = integerText ws sg k m t" using s S u by (simp add: integerText_def)
    with l st show ?thesis by blast
  qed
qed

lemma integerText_nonempty: "integerText ws sg k m t \<noteq> []"
  by (simp add: integerText_def digits_nonempty)


lemma GET_parsed:
  assumes "s \<noteq> []" and "z \<noteq> []"
  shows "GET dir appId (Some s) (Some z) =
           (case parseInt s of
              None \<Rightarrow> Json400 ''Invalid start parameter''
            | Some a \<Rightarrow>
                if a < 0 then Json400 ''Invalid start parameter''
                else (case parseInt z of
                        None \<Rightarrow> Json400 ''Invalid size parameter (must be between 1 and 1000)''
                      | Some n \<Rightarrow>
                          if n \<le> 0 \<or> 1000 < n
                            then Json400 ''Invalid size parameter (must be between 1 and 1000)''
                          else (case getAppDataRange dir appId a n of
                                  Inr result \<Rightarrow> Json200 result
                                | Inl e \<Rightarrow> Json500 ''Internal server error'')))"
  using assms by (simp add: GET_def Let_def split: option.splits sum.splits)

lemma GET_no_start:
  assumes "s \<noteq> []" and "parseInt s = None"
  shows "GET dir appId (Some s) q = Json400 ''Invalid start parameter''"
  using assms by (simp add: GET_def Let_def)

text \<open>
  Claim C9, as stated: the handler does not reject every \<open>start\<close> that is negative or not
  a number, nor every \<open>size\<close> above 1000. The text \<open>-0.5\<close> is read as 0, \<open>4abc\<close> as 4,
  \<open>1e4\<close> as 1 and \<open>1000.9\<close> as 1000, and each of these requests is answered with records.
\<close>

theorem GET_accepts_fraction_and_suffix:
  "GET (seeded 6) ''app_1'' (Some ''-0.5'') (Some ''2'')
     = Json200 \<lparr>data = [0, 1], totalCount = 6\<rparr> \<and>
   GET (seeded 6) ''app_1'' (Some ''4abc'') (Some ''1e4'')
     = Json200 \<lparr>data = [4], totalCount = 6\<rparr> \<and>
   GET (seeded 6) ''app_1'' (Some ''0'') (Some ''1000.9'')
     = Json200 \<lparr>data = [0, 1, 2, 3, 4, 5], totalCount = 6\<rparr>"
proof -
  have p: "parseInt ''-0.5'' = Some 0" "parseInt ''2'' = Some 2"
    "parseInt ''4abc'' = Some 4" "parseInt ''1e4'' = Some 1"
    "parseInt ''0'' = Some 0" "parseInt ''1000.9'' = Some 1000"
    by code_simp+
  have u: "js_slice [0..<6] 0 2 = [0, 1]" "js_slice [0..<6] 4 5 = [4]"
    "js_slice [0..<6] 0 1000 = [0, 1, 2, 3, 4, 5]"
    by (simp_all add: js_slice_def Let_def upt_rec)
  have r: "getAppDataRange (seeded 6) ''app_1'' 0 2 = Inr \<lparr>data = [0, 1], totalCount = 6\<rparr>"
    "getAppDataRange (seeded 6) ''app_1'' 4 1 = Inr \<lparr>data = [4], totalCount = 6\<rparr>"
    "getAppDataRange (seeded 6) ''app_1'' 0 1000
       = Inr \<lparr>data = [0, 1, 2, 3, 4, 5], totalCount = 6\<rparr>"
    by (simp_all add: getAppDataRange_def seeded_file u)
  show ?thesis by (simp add: GET_parsed p r)
qed

text \<open>
  Claim C9, amended. With both parameters given, the handler reads each text as
  follows: leading white space, at most one sign, then the longest run of decimal
  digits, and whatever follows is ignored. It answers 400 exactly when \<open>start\<close> has
  no digit there or reads as an integer below 0, or \<open>size\<close> has no digit there or reads
  as an integer that is at most 0 or above 1000; otherwise the request goes on to the
  range query with the two integers read. Every text is of one of the two forms. A
  sign before zeros reads as 0, which is accepted as a \<open>start\<close>.
\<close>

theorem GET_reads_request_text:
  assumes "leads ws sg" and "stops t" and "leads ws' sg'" and "stops t'"
  shows "GET dir appId (Some (integerText ws sg k a t)) (Some (integerText ws' sg' k' n t')) =
           (if sg = ''-'' \<and> 0 < a then Json400 ''Invalid start parameter''
            else if sg' = ''-'' \<or> n = 0 \<or> 1000 < n
              then Json400 ''Invalid size parameter (must be between 1 and 1000)''
            else (case getAppDataRange dir appId (int a) (int n) of
                    Inr result \<Rightarrow> Json200 result
                  | Inl e \<Rightarrow> Json500 ''Internal server error'')) \<and>
         (\<forall>u q. digitless sg u \<and> ws @ sg @ u \<noteq> [] \<longrightarrow>
            GET dir appId (Some (ws @ sg @ u)) q = Json400 ''Invalid start parameter'') \<and>
         (\<forall>u. digitless sg' u \<and> ws' @ sg' @ u \<noteq> [] \<longrightarrow>
            GET dir appId (Some (integerText ws sg k a t)) (Some (ws' @ sg' @ u)) =
              (if sg = ''-'' \<and> 0 < a then Json400 ''Invalid start parameter''
               else Json400 ''Invalid size parameter (must be between 1 and 1000)'')) \<and>
         (\<forall>s. (\<exists>ws sg k m t. leads ws sg \<and> stops t \<and> s = integerText ws sg k m t) \<or>
              (\<exists>ws sg u. leads ws sg \<and> digitless sg u \<and> s = ws @ sg @ u))"
proof -
  note ps = parseInt_integerText [OF assms(1,2), of k a]
  note pz = parseInt_integerText [OF assms(3,4), of k' n]
  have 1: "GET dir appId (Some (integerText ws sg k a t)) (Some (integerText ws' sg' k' n t')) =
           (if sg = ''-'' \<and> 0 < a then Json400 ''Invalid start parameter''
            else if sg' = ''-'' \<or> n = 0 \<or> 1000 < n
              then Json400 ''Invalid size parameter (must be between 1 and 1000)''
            else (case getAppDataRange dir appId (int a) (int n) of
                    Inr result \<Rightarrow> Json200 result
                  | Inl e \<Rightarrow> Json500 ''Internal server error''))"
  proof -
    define A where "A = (if sg = ''-'' then - int a else int a)"
    define N where "N = (if sg' = ''-'' then - int n else int n)"
    have g: "GET dir appId (Some (integerText ws sg k a t)) (Some (integerText ws' sg' k' n t')) =
               (if A < 0 then Json400 ''Invalid start parameter''
                else if N \<le> 0 \<or> 1000 < N
                  then Json400 ''Invalid size parameter (must be between 1 and 1000)''
                else (case getAppDataRange dir appId A N of
                        Inr result \<Rightarrow> Json200 result
                      | Inl e \<Rightarrow> Json500 ''Internal server error''))"
      unfolding A_def N_def
      by (simp only: GET_parsed [OF integerText_nonempty integerText_nonempty] ps pz option.case)
    have cA: "A < 0 \<longleftrightarrow> sg = ''-'' \<and> 0 < a" by (simp add: A_def)
    have cN: "N \<le> 0 \<or> 1000 < N \<longleftrightarrow> sg' = ''-'' \<or> n = 0 \<or> 1000 < n" by (auto simp add: N_def)
    have vA: "\<not> A < 0 \<Longrightarrow> A = int a" by (simp add: A_def split: if_splits)
    have vN: "\<not> (N \<le> 0 \<or> 1000 < N) \<Longrightarrow> N = int n" by (simp add: N_def split: if_splits)
    show ?thesis
    proof (cases "A < 0")
      case True
      then have e: "(A < 0) = True" "(sg = ''-'' \<and> 0 < a) = True" using cA by blast+
      show ?thesis by (simp only: g e if_True)
    next
      case nA: False
      then have e: "(A < 0) = False" "(sg = ''-'' \<and> 0 < a) = False" using cA by blast+
      show ?thesis
      proof (cases "N \<le> 0 \<or> 1000 < N")
        case True
        then have f: "(N \<le> 0 \<or> 1000 < N) = True" "(sg' = ''-'' \<or> n = 0 \<or> 1000 < n) = True"
          using cN by blast+
        show ?thesis by (simp only: g e f if_True if_False)
      next
        case False
        then have f: "(N \<le> 0 \<or> 1000 < N) = False" "(sg' = ''-'' \<or> n = 0 \<or> 1000 < n) = False"
          using cN by blast+
        have "(case getAppDataRange dir appId A N of
                 Inr result \<Rightarrow> Json200 result
               | Inl e \<Rightarrow> Json500 ''Internal server error'') =
              (case getAppDataRange dir appId (int a) (int n) of
                 Inr result \<Rightarrow> Json200 result
               | Inl e \<Rightarrow> Json500 ''Internal server error'')"
          by (simp only: vA [OF nA] vN [OF False])
        then show ?thesis by (simp only: g e f if_False)
      qed
    qed
  qed
  have 2: "\<forall>u q. digitless sg u \<and> ws @ sg @ u \<noteq> [] \<longrightarrow>
            GET dir appId (Some (ws @ sg @ u)) q = Json400 ''Invalid start parameter''"
    using parseInt_digitless [OF assms(1)] GET_no_start by blast
  have 3: "\<forall>u. digitless sg' u \<and> ws' @ sg' @ u \<noteq> [] \<longrightarrow>
            GET dir appId (Some (integerText ws sg k a t)) (Some (ws' @ sg' @ u)) =
              (if sg = ''-'' \<and> 0 < a then Json400 ''Invalid start parameter''
               else Json400 ''Invalid size parameter (must be between 1 and 1000)'')"
  proof (intro allI impI)
    fix u
    assume h: "digitless sg' u \<and> ws' @ sg' @ u \<noteq> []"
    then have n: "parseInt (ws' @ sg' @ u) = None"
      using parseInt_digitless [OF assms(3)] by blast
    from h have ne: "ws' @ sg' @ u \<noteq> []" by blast
    show "GET dir appId (Some (integerText ws sg k a t)) (Some (ws' @ sg' @ u)) =
              (if sg = ''-'' \<and> 0 < a then Json400 ''Invalid start parameter''
               else Json400 ''Invalid size parameter (must be between 1 and 1000)'')"
      unfolding GET_parsed [OF integerText_nonempty ne] ps n option.case
      by (simp split: if_splits)
  qed
  have 4: "\<forall>s. (\<exists>ws sg k m t. leads ws sg \<and> stops t \<and> s = integerText ws sg k m t) \<or>
              (\<exists>ws sg u. leads ws sg \<and> digitless sg u \<and> s = ws @ sg @ u)"
    using text_cases by blast
  from 1 2 3 4 show ?thesis by blast
qed

theorem GET_reads_request_text_witness:
  "leads '' '' ''+'' \<and> stops ''.9'' \<and> leads [] [] \<and> stops ''rows'' \<and>
   integerText '' '' ''+'' 2 7 ''.9'' = '' +007.9'' \<and>
   integerText [] [] 0 3 ''rows'' = ''3rows'' \<and>
   GET (seeded 10) ''app_1'' (Some '' +007.9'') (Some ''3rows'')
     = Json200 \<lparr>data = [7, 8, 9], totalCount = 10\<rparr> \<and>
   digitless ''+'' ''x7'' \<and>
   GET (seeded 10) ''app_1'' (Some '' +x7'') (Some ''3'') = Json400 ''Invalid start parameter'' \<and>
   digitless [] ''.5'' \<and>
   GET (seeded 10) ''app_1'' (Some '' +007.9'') (Some ''.5'')
     = Json400 ''Invalid size parameter (must be between 1 and 1000)''"
proof -
  have l1: "leads '' '' ''+''" by (simp add: leads_def isWhiteSpace_def)
  have s1: "stops ''.9''" by (simp add: stops_def isDigit_def)
  have l2: "leads [] []" by (simp add: leads_def)
  have s2: "stops ''rows''" by (simp add: stops_def isDigit_def)
  have d7: "digits 7 = ''7''" "digits 3 = ''3''" by code_simp+
  have t1: "integerText '' '' ''+'' 2 7 ''.9'' = '' +007.9''"
    by (simp add: integerText_def d7 numeral_2_eq_2)
  have t2: "integerText [] [] 0 3 ''rows'' = ''3rows''"
    by (simp add: integerText_def d7)
  have g1: "digitless ''+'' ''x7''" by (simp add: digitless_def stops_def isDigit_def)
  have g2: "digitless [] ''.5''"
    by (simp add: digitless_def stops_def isDigit_def isWhiteSpace_def)
  have u: "js_slice [0..<10] 7 10 = [7, 8, 9]" by (simp add: js_slice_def Let_def upt_rec)
  have r: "getAppDataRange (seeded 10) ''app_1'' 7 3 = Inr \<lparr>data = [7, 8, 9], totalCount = 10\<rparr>"
    by (simp add: getAppDataRange_def seeded_file u)
  note th = GET_reads_request_text [OF l1 s1 l2 s2, where dir = "seeded 10" and appId = "''app_1''"
      and k = 2 and a = 7 and k' = 0 and n = 3]
  have a: "GET (seeded 10) ''app_1'' (Some '' +007.9'') (Some ''3rows'')
             = Json200 \<lparr>data = [7, 8, 9], totalCount = 10\<rparr>"
    using th [THEN conjunct1] by (simp add: t1 t2 r)
  have b: "GET (seeded 10) ''app_1'' (Some '' +x7'') (Some ''3'') = Json400 ''Invalid start parameter''"
    using th [THEN conjunct2, THEN conjunct1, THEN spec [where x = "''x7''"],
              THEN spec [where x = "Some ''3''"]] g1 by simp
  have c: "GET (seeded 10) ''app_1'' (Some '' +007.9'') (Some ''.5'')
             = Json400 ''Invalid size parameter (must be between 1 and 1000)''"
    using th [THEN conjunct2, THEN conjunct2, THEN conjunct1, THEN spec [where x = "''.5''"]] g2
    by (simp add: t1)
  from l1 s1 l2 s2 t1 t2 a b c g1 g2 show ?thesis by blast
qed

lemma fetchData_length:
  "int (windowLength (Some (fetchData dir appId k))) \<le> max 0 (snd k)"
proof (cases "fst k < 0 \<or> snd k \<le> 0 \<or> 1000 < snd k")
  case True
  then show ?thesis by (auto simp add: fetchData_def GET_toString json_def)
next
  case False
  then have n: "0 < snd k" by simp
  show ?thesis
  proof (cases "getAppDataRange dir appId (fst k) (snd k)")
    case (Inl e)
    with False show ?thesis by (simp add: fetchData_def GET_toString json_def)
  next
    case (Inr r)
    from False have "0 \<le> fst k" by simp
    with False getAppDataRange_length [OF Inr _ n] show ?thesis
      by (simp add: fetchData_def GET_toString json_def Inr)
  qed
qed

lemma fetchData_window:
  assumes "dir (dataFile appId) = Some (JsonArray allData)"
    and "0 \<le> fst k" and "0 < snd k" and "snd k \<le> 1000"
  shows "fetchData dir appId k =
           DataBody (take (nat (snd k)) (drop (nat (fst k)) allData)) (int (length allData))"
  using assms by (simp add: fetchData_def GET_toString json_def getAppDataRange_array)

lemma parseInt_0: "parseInt ''0'' = Some 0" by code_simp

lemma parseInt_1: "parseInt ''1'' = Some 1" by code_simp

lemma fetchMeta_seeded: "fetchMeta (seeded n) ''app_1'' = int n"
  by (simp add: fetchMeta_def GET_def parseInt_0 parseInt_1 getAppDataRange_def
      seeded_file json_def)

lemma fetchData_seeded:
  assumes "0 \<le> a" and "0 < b" and "b \<le> 1000"
  shows "fetchData (seeded n) ''app_1'' (a, b) =
           DataBody (take (nat b) (drop (nat a) [0..<n])) (int n)"
  using fetchData_window [of "seeded n" "''app_1''" "[0..<n]" "(a, b)"] seeded_file [of n] assms
  by simp

lemma fetchData_corrupted:
  assumes "0 \<le> a" and "0 < b" and "b \<le> 1000"
  shows "fetchData corrupted ''app_1'' (a, b) = ErrorBody ''Internal server error''"
  using assms
  by (simp add: fetchData_def GET_toString getAppDataRange_def corrupted_def json_def)

section \<open>Properties of the row cache\<close>

text \<open>
  The loop of \<open>dataMap\<close> fills exactly the keys \<open>start, ..., start + length - 1\<close>, record
  \<open>idx\<close> under \<open>start + idx\<close>.
\<close>

lemma fold_enumerate_update:
  "fold (\<lambda>(idx, record) m. m(st + int idx \<mapsto> record)) (enumerate n xs) m0 k =
     (if st + int n \<le> k \<and> k < st + int n + int (length xs)
      then Some (xs ! nat (k - st - int n)) else m0 k)"
proof (induction xs arbitrary: n m0)
  case Nil
  then show ?case by auto
next
  case (Cons x xs)
  have "nat (k - st - int n) = Suc (nat (k - st - int (Suc n)))"
    if "st + int n < k" using that by simp
  then show ?case
    using Cons.IH [of "Suc n" "m0(st + int n \<mapsto> x)"]
    by (auto simp add: nth_Cons')
qed

lemma dataMap_DataBody:
  "dataMap (Some (DataBody records n)) st k =
     (if st \<le> k \<and> k < st + int (length records) then Some (records ! nat (k - st)) else None)"
  by (simp add: dataMap_def fold_enumerate_update)

lemma dataMap_no_data [simp]:
  "dataMap None st = Map.empty" "dataMap (Some (ErrorBody msg)) st = Map.empty"
  by (simp_all add: dataMap_def)

lemma dom_dataMap: "dom (dataMap qd st) = {st ..< st + int (windowLength qd)}"
proof (cases qd)
  case None
  then show ?thesis by simp
next
  case (Some body)
  then show ?thesis
    by (cases body) (auto simp add: dom_def dataMap_DataBody)
qed

lemma card_dom_dataMap: "card (dom (dataMap qd st)) = windowLength qd"
  by (simp add: dom_dataMap)

section \<open>Properties of the mounted table\<close>

lemma run_append:
  "run appId (xs @ ys) s = (case run appId xs s of None \<Rightarrow> None | Some s' \<Rightarrow> run appId ys s')"
  by (induction xs arbitrary: s) (auto split: option.splits)

lemma run_quiet:
  assumes "\<forall>e \<in> set es. quiet e"
  shows "\<exists>s'. run appId es s = Some s' \<and> totalCount' s' = totalCount' s \<and>
           debouncedRange s' = debouncedRange s \<and> cache s' = cache s \<and>
           lastWithData s' = lastWithData s \<and> inflight s' = inflight s \<and>
           issued s' = issued s \<and> now s \<le> now s'"
  using assms
proof (induction es arbitrary: s)
  case Nil
  then show ?case by simp
next
  case (Cons e es)
  then have q: "quiet e" and qs: "\<forall>e \<in> set es. quiet e" by simp_all
  from q obtain s1 where s1: "step appId e s = Some s1"
    and keep: "totalCount' s1 = totalCount' s" "debouncedRange s1 = debouncedRange s"
      "cache s1 = cache s" "lastWithData s1 = lastWithData s" "inflight s1 = inflight s"
      "issued s1 = issued s" "now s \<le> now s1"
    by (cases e) (simp_all add: restartTimer_def)
  from Cons.IH [OF qs, of s1] obtain s' where
    "run appId es s1 = Some s'" "totalCount' s' = totalCount' s1"
    "debouncedRange s' = debouncedRange s1" "cache s' = cache s1"
    "lastWithData s' = lastWithData s1" "inflight s' = inflight s1"
    "issued s' = issued s1" "now s1 \<le> now s'"
    by blast
  with s1 keep show ?case by simp
qed

lemma issued_remember [simp]: "issued (remember s) = issued s"
  by (simp add: remember_def split: option.splits queryState.splits)

lemma debouncedRange_remember [simp]: "debouncedRange (remember s) = debouncedRange s"
  by (simp add: remember_def split: option.splits queryState.splits)

lemma timer_remember [simp]: "timer (remember s) = timer s"
  by (simp add: remember_def split: option.splits queryState.splits)

lemma debouncedRange_startFetch [simp]: "debouncedRange (startFetch s) = debouncedRange s"
  by (simp add: startFetch_def Let_def)

lemma timer_startFetch [simp]: "timer (startFetch s) = timer s"
  by (simp add: startFetch_def Let_def)

lemma issued_startFetch:
  "issued (startFetch s) =
     issued s @ (if 0 < totalCount' s \<and> currentKey s \<notin> set (inflight s) \<and>
                    isStale (cache s) (now s) (currentKey s)
                 then [currentKey s] else [])"
  by (simp add: startFetch_def Let_def)

lemma queryData_loaded:
  "cache s (currentKey s) = Some (Loaded body t) \<Longrightarrow> queryData s = Some body"
  by (simp add: queryData_def)

lemma currentKey_remember [simp]: "currentKey (remember s) = currentKey s"
  by (simp add: currentKey_def)

lemma cache_remember [simp]: "cache (remember s) = cache s"
  by (simp add: remember_def split: option.splits queryState.splits)

lemma queryData_remember:
  "queryData (remember s) = queryData s"
  by (auto simp add: queryData_def remember_def currentKey_def
      split: option.splits queryState.splits)

lemma tableDataMap_remember: "tableDataMap (remember s) = tableDataMap s"
  by (simp add: tableDataMap_def queryData_remember)

lemma visibleRange_rows:
  assumes "lo \<le> hi"
  shows "visibleRange (rows lo hi) tc =
           \<lparr>start = max 0 (lo - 20), size_r = min (tc - 1) (hi + 20) - max 0 (lo - 20) + 1\<rparr>"
  using assms
  by (simp add: visibleRange_nonempty rows_nonempty hd_rows last_rows BUFFER_SIZE_def)

lemma visibleRange_empty: "visibleRange [] tc = \<lparr>start = 0, size_r = 50\<rparr>"
  by (simp add: visibleRange_def)

lemma visibleWithin_rows: "lo \<le> hi \<Longrightarrow> visibleWithin W (rows lo hi) = (hi - lo + 1 \<le> W)"
  by (simp add: visibleWithin_def rows_nonempty hd_rows last_rows)

lemma rowAt_DataBody:
  "queryData s = Some (DataBody records n) \<Longrightarrow>
   rowAt i s = (if start (debouncedRange s) \<le> i \<and>
                   i < start (debouncedRange s) + int (length records)
                then Some (records ! nat (i - start (debouncedRange s))) else None)"
  by (simp add: rowAt_def tableDataMap_def dataMap_DataBody)

lemmas machine_simps =
  mounted_def restartTimer_def startFetch_def remember_def currentKey_def keyOf_def
  isStale_def visibleRange_rows visibleRange_empty DEBOUNCE_MS_def STALE_TIME_def Let_def
  fetchMeta_seeded fetchData_seeded fetchData_corrupted

lemmas view_simps = rowAt_def tableDataMap_def queryData_def previousData_def dataMap_DataBody

subsection \<open>Debounce\<close>

text \<open>
  Claim C3 as stated, tried on the table: with 1000 rows the table has settled on the
  range \<open>{0, 38}\<close>; the user scrolls down and back up within 100 ms, so the ranges
  \<open>{10, 58}\<close> and \<open>{0, 38}\<close> arrive in one quiet interval, and the timer runs 300 ms later.
  The log of requests is the same before and after: the timer stored a range with the key
  that \<open>useQuery\<close> already observes, and no request was issued where the claim has
  exactly one.
\<close>

theorem debounce_same_key_no_fetch:
  "map_option issued
     (run ''app_1''
        [MetaResolved (seeded 1000), Scrolled (rows 0 17), Elapsed 300, TimerFired]
        mounted) = Some [(0, 50), (0, 38)] \<and>
   map_option issued
     (run ''app_1''
        [MetaResolved (seeded 1000), Scrolled (rows 0 17), Elapsed 300, TimerFired,
         Scrolled (rows 30 47), Elapsed 100, Scrolled (rows 0 17), Elapsed 300, TimerFired]
        mounted) = Some [(0, 50), (0, 38)]"
  by (simp add: machine_simps)

lemma quiet_burst: "\<forall>e \<in> set (burst pairs). quiet e"
  by (induction pairs) auto

lemma timer_pending_after_scroll:
  assumes "g < DEBOUNCE_MS"
  shows "step appId TimerFired (restartTimer (s\<lparr>virtualItems := items\<rparr>)) = None"
    and "step appId TimerFired
           ((restartTimer (s\<lparr>virtualItems := items\<rparr>))\<lparr>now := now s + g\<rparr>) = None"
  using assms by (simp_all add: restartTimer_def)

lemma timer_refused_within_burst:
  assumes "\<forall>p \<in> set pairs. snd p < DEBOUNCE_MS"
    and "0 < n" and "n \<le> length (burst pairs @ [Scrolled items] :: 'r event list)"
  shows "\<exists>s'. run appId (take n (burst pairs @ [Scrolled items])) (s :: 'r table) = Some s' \<and>
           issued s' = issued s \<and> debouncedRange s' = debouncedRange s \<and>
           step appId TimerFired s' = None"
  using assms
proof (induction pairs arbitrary: s n)
  case Nil
  have d: "0 < DEBOUNCE_MS" by (simp add: DEBOUNCE_MS_def)
  from Nil.prems(2,3) have "n = 1" by simp
  then show ?case
    using timer_pending_after_scroll(1) [OF d, where appId = appId and s = s and items = items]
    by (simp add: restartTimer_def)
next
  case (Cons p rest)
  obtain it g where p: "p = (it, g)" by (cases p)
  from Cons.prems(1) p have g: "g < DEBOUNCE_MS"
    and rest: "\<forall>p \<in> set rest. snd p < DEBOUNCE_MS"
    by simp_all
  define sA where "sA = restartTimer (s\<lparr>virtualItems := it\<rparr>)"
  define sB where "sB = sA\<lparr>now := now s + g\<rparr>"
  have keepA: "issued sA = issued s" "debouncedRange sA = debouncedRange s"
    and keepB: "issued sB = issued s" "debouncedRange sB = debouncedRange s"
    by (simp_all add: sA_def sB_def restartTimer_def)
  have stepA: "step appId (Scrolled it) s = Some sA" by (simp add: sA_def)
  have stepB: "step appId (Elapsed g) sA = Some sB"
    by (simp add: sB_def sA_def restartTimer_def)
  have refA: "step appId TimerFired sA = None"
    unfolding sA_def using g by (rule timer_pending_after_scroll(1))
  have refB: "step appId TimerFired sB = None"
    unfolding sB_def sA_def using g by (rule timer_pending_after_scroll(2))
  show ?case
  proof (cases n)
    case 0
    with Cons.prems(2) show ?thesis by simp
  next
    case (Suc m)
    show ?thesis
    proof (cases m)
      case 0
      with Suc p stepA keepA refA show ?thesis by simp
    next
      case (Suc j)
      note n = \<open>n = Suc m\<close> Suc
      show ?thesis
      proof (cases j)
        case 0
        with n p stepA stepB keepB refB show ?thesis by simp
      next
        case (Suc i)
        with n Cons.prems(3) p
        have j: "0 < j" "j \<le> length (burst rest @ [Scrolled items] :: 'r event list)"
          by simp_all
        from Cons.IH [OF rest j, of sB] obtain s' where
          "run appId (take j (burst rest @ [Scrolled items])) sB = Some s'"
          "issued s' = issued sB" "debouncedRange s' = debouncedRange sB"
          "step appId TimerFired s' = None"
          by blast
        with n p stepA stepB keepB show ?thesis by simp
      qed
    qed
  qed
qed

text \<open>
  Claim C3, amended. When ranges arrive in a burst, each less than \<open>DEBOUNCE_MS\<close> after
  the one before, the timer callback cannot run at any moment inside the burst, nor
  earlier than \<open>DEBOUNCE_MS\<close> after its last range, and no request is issued meanwhile.
  When the timer then runs, the debounced range becomes the last range of the burst and
  at most one request is issued, for that range: exactly one when its key differs from
  the key observed so far, the total count is positive, no request for the key is under
  way and no fresh result for it is stored; none otherwise. A request that the query
  client retries after a failure counts once.
\<close>

theorem debounce_coalesces:
  assumes "\<forall>p \<in> set pairs. snd p < DEBOUNCE_MS"
  shows "(\<forall>n. 0 < n \<and> n \<le> length (burst pairs @ [Scrolled items] :: 'r event list) \<longrightarrow>
            (\<exists>s'. run appId (take n (burst pairs @ [Scrolled items])) (s :: 'r table)
                    = Some s' \<and>
                  issued s' = issued s \<and> debouncedRange s' = debouncedRange s \<and>
                  step appId TimerFired s' = None)) \<and>
         (\<forall>d. \<exists>s1. run appId (burst pairs @ [Scrolled items, Elapsed d]) s = Some s1 \<and>
                issued s1 = issued s \<and> debouncedRange s1 = debouncedRange s \<and>
                (if d < DEBOUNCE_MS then step appId TimerFired s1 = None
                 else (\<exists>s2. step appId TimerFired s1 = Some s2 \<and>
                         timer s2 = None \<and>
                         debouncedRange s2 = visibleRange items (totalCount' s) \<and>
                         issued s2 = issued s @
                           (if keyOf (visibleRange items (totalCount' s)) \<noteq> currentKey s \<and>
                               0 < totalCount' s \<and>
                               keyOf (visibleRange items (totalCount' s)) \<notin> set (inflight s) \<and>
                               isStale (cache s) (now s1)
                                 (keyOf (visibleRange items (totalCount' s)))
                            then [keyOf (visibleRange items (totalCount' s))] else []))))"
proof (intro conjI allI impI)
  fix n assume "0 < n \<and> n \<le> length (burst pairs @ [Scrolled items] :: 'r event list)"
  then have n: "0 < n" "n \<le> length (burst pairs @ [Scrolled items] :: 'r event list)"
    by blast+
  show "\<exists>s'. run appId (take n (burst pairs @ [Scrolled items])) s = Some s' \<and>
                  issued s' = issued s \<and> debouncedRange s' = debouncedRange s \<and>
                  step appId TimerFired s' = None"
    using assms n by (rule timer_refused_within_burst)
next
  fix d
  from run_quiet [OF quiet_burst, of appId pairs s] obtain s' where
    r: "run appId (burst pairs) s = Some s'" and
    keep: "totalCount' s' = totalCount' s" "debouncedRange s' = debouncedRange s"
      "cache s' = cache s" "lastWithData s' = lastWithData s" "inflight s' = inflight s"
      "issued s' = issued s"
    by blast
  define s1 where
    "s1 = (restartTimer (s'\<lparr>virtualItems := items\<rparr>))\<lparr>now := now s' + d\<rparr>"
  have r1: "run appId (burst pairs @ [Scrolled items, Elapsed d]) s = Some s1"
    by (simp add: run_append r s1_def restartTimer_def)
  have t1: "timer s1 = Some (now s' + DEBOUNCE_MS, visibleRange items (totalCount' s))"
    by (simp add: s1_def restartTimer_def keep)
  have f1: "totalCount' s1 = totalCount' s" "debouncedRange s1 = debouncedRange s"
    "cache s1 = cache s" "inflight s1 = inflight s" "issued s1 = issued s"
    "now s1 = now s' + d"
    by (simp_all add: s1_def restartTimer_def keep)
  define r where "r = visibleRange items (totalCount' s)"
  define s2 where
    "s2 = (if keyOf r = currentKey s then s1\<lparr>debouncedRange := r, timer := None\<rparr>
           else remember (startFetch (s1\<lparr>debouncedRange := r, timer := None\<rparr>)))"
  have early: "step appId TimerFired s1 = None" if "d < DEBOUNCE_MS"
    using that by (simp add: t1 f1)
  have st: "step appId TimerFired s1 = Some s2" if "\<not> d < DEBOUNCE_MS"
    using that by (simp add: t1 s2_def r_def currentKey_def f1)
  have "timer s2 = None" by (simp add: s2_def)
  moreover have "debouncedRange s2 = r" by (simp add: s2_def)
  moreover have "issued s2 = issued s @
             (if keyOf r \<noteq> currentKey s \<and> 0 < totalCount' s \<and>
                 keyOf r \<notin> set (inflight s) \<and> isStale (cache s) (now s1) (keyOf r)
              then [keyOf r] else [])"
    by (simp add: s2_def issued_startFetch f1 currentKey_def)
  ultimately have late: "\<exists>s2. step appId TimerFired s1 = Some s2 \<and>
                         timer s2 = None \<and>
                         debouncedRange s2 = visibleRange items (totalCount' s) \<and>
                         issued s2 = issued s @
                           (if keyOf (visibleRange items (totalCount' s)) \<noteq> currentKey s \<and>
                               0 < totalCount' s \<and>
                               keyOf (visibleRange items (totalCount' s)) \<notin> set (inflight s) \<and>
                               isStale (cache s) (now s1)
                                 (keyOf (visibleRange items (totalCount' s)))
                            then [keyOf (visibleRange items (totalCount' s))] else [])"
    if "\<not> d < DEBOUNCE_MS"
    using st [OF that] unfolding r_def by blast
  show "\<exists>s1. run appId (burst pairs @ [Scrolled items, Elapsed d]) s = Some s1 \<and>
                issued s1 = issued s \<and> debouncedRange s1 = debouncedRange s \<and>
                (if d < DEBOUNCE_MS then step appId TimerFired s1 = None
                 else (\<exists>s2. step appId TimerFired s1 = Some s2 \<and>
                         timer s2 = None \<and>
                         debouncedRange s2 = visibleRange items (totalCount' s) \<and>
                         issued s2 = issued s @
                           (if keyOf (visibleRange items (totalCount' s)) \<noteq> currentKey s \<and>
                               0 < totalCount' s \<and>
                               keyOf (visibleRange items (totalCount' s)) \<notin> set (inflight s) \<and>
                               isStale (cache s) (now s1)
                                 (keyOf (visibleRange items (totalCount' s)))
                            then [keyOf (visibleRange items (totalCount' s))] else [])))"
  proof (cases "d < DEBOUNCE_MS")
    case True
    with r1 f1 early show ?thesis by (intro exI [of _ s1]) simp
  next
    case False
    with r1 f1 late show ?thesis by (intro exI [of _ s1]) simp
  qed
qed

theorem debounce_coalesces_witness:
  "\<exists>s0 sm s1 s2.
     run ''app_1'' [MetaResolved (seeded 1000)] mounted = Some s0 \<and>
     issued s0 = [(0, 50)] \<and>
     run ''app_1'' [Scrolled (rows 0 29), Elapsed 100, Scrolled (rows 30 39)] s0 = Some sm \<and>
     step ''app_1'' TimerFired sm = None \<and>
     run ''app_1''
       [Scrolled (rows 0 29), Elapsed 100, Scrolled (rows 30 39), Elapsed 100,
        Scrolled (rows 45 54), Elapsed 300] s0 = Some s1 \<and>
     issued s1 = [(0, 50)] \<and>
     step ''app_1'' TimerFired s1 = Some s2 \<and>
     debouncedRange s2 = \<lparr>start = 25, size_r = 50\<rparr> \<and>
     issued s2 = [(0, 50), (25, 50)]"
proof -
  define s0 :: "nat table" where
    "s0 = startFetch (restartTimer (mounted\<lparr>totalCount' := 1000\<rparr>))"
  have r0: "run ''app_1'' [MetaResolved (seeded 1000)] mounted = Some s0"
    by (simp add: s0_def fetchMeta_seeded Let_def) (simp add: mounted_def)
  have f0: "totalCount' s0 = 1000" "currentKey s0 = (0, 50)" "inflight s0 = [(0, 50)]"
    "issued s0 = [(0, 50)]" "cache s0 = (\<lambda>k. None)"
    by (simp_all add: s0_def machine_simps)
  have q: "\<forall>p \<in> set [(rows 0 29, 100), (rows 30 39, 100)]. snd p < DEBOUNCE_MS"
    by (simp add: DEBOUNCE_MS_def)
  have v: "visibleRange (rows 45 54) 1000 = \<lparr>start = 25, size_r = 50\<rparr>"
    by (simp add: visibleRange_rows)
  have b: "burst [(rows 0 29, 100), (rows 30 39, 100)] =
             [Scrolled (rows 0 29), Elapsed 100, Scrolled (rows 30 39), Elapsed 100 :: nat event]"
    by simp
  have t3: "take 3 ([Scrolled (rows 0 29), Elapsed 100, Scrolled (rows 30 39), Elapsed 100]
                    @ [Scrolled (rows 45 54) :: nat event]) =
              [Scrolled (rows 0 29), Elapsed 100, Scrolled (rows 30 39)]"
    by simp
  have len: "0 < (3::nat) \<and>
             3 \<le> length ([Scrolled (rows 0 29), Elapsed 100, Scrolled (rows 30 39), Elapsed 100]
                           @ [Scrolled (rows 45 54) :: nat event])"
    by simp
  have ap: "[Scrolled (rows 0 29), Elapsed 100, Scrolled (rows 30 39), Elapsed 100]
              @ [Scrolled (rows 45 54), Elapsed 300 :: nat event] =
            [Scrolled (rows 0 29), Elapsed 100, Scrolled (rows 30 39), Elapsed 100,
             Scrolled (rows 45 54), Elapsed 300]"
    by simp
  have late: "((300::nat) < DEBOUNCE_MS) = False" by (simp add: DEBOUNCE_MS_def)
  note th = debounce_coalesces [OF q, where items = "rows 45 54" and appId = "''app_1''"
                                 and s = s0, unfolded b]
  note inside = th [THEN conjunct1, THEN spec [where x = "3::nat"], THEN mp, OF len,
                    unfolded t3]
  note after = th [THEN conjunct2, THEN spec [where x = "300::nat"],
                   unfolded ap late if_False]
  from inside obtain sm where
    m: "run ''app_1'' [Scrolled (rows 0 29), Elapsed 100, Scrolled (rows 30 39)] s0 = Some sm"
      "step ''app_1'' TimerFired sm = None"
    by blast
  from after obtain s1 s2 where
    r1: "run ''app_1''
       [Scrolled (rows 0 29), Elapsed 100, Scrolled (rows 30 39), Elapsed 100,
        Scrolled (rows 45 54), Elapsed 300] s0 = Some s1"
    and i1: "issued s1 = issued s0"
    and st: "step ''app_1'' TimerFired s1 = Some s2"
    and d2: "debouncedRange s2 = visibleRange (rows 45 54) (totalCount' s0)"
    and i2: "issued s2 = issued s0 @
               (if keyOf (visibleRange (rows 45 54) (totalCount' s0)) \<noteq> currentKey s0 \<and>
                   0 < totalCount' s0 \<and>
                   keyOf (visibleRange (rows 45 54) (totalCount' s0)) \<notin> set (inflight s0) \<and>
                   isStale (cache s0) (now s1)
                     (keyOf (visibleRange (rows 45 54) (totalCount' s0)))
                then [keyOf (visibleRange (rows 45 54) (totalCount' s0))] else [])"
    by blast
  from i1 have "issued s1 = [(0, 50)]" by (simp add: f0)
  moreover from d2 have "debouncedRange s2 = \<lparr>start = 25, size_r = 50\<rparr>"
    by (simp add: f0 v)
  moreover from i2 have "issued s2 = [(0, 50), (25, 50)]"
    by (simp add: f0 v keyOf_def isStale_def)
  ultimately show ?thesis using r0 f0(4) m r1 st by blast
qed

subsection \<open>Answers that arrive late\<close>

text \<open>
  Claim C4 as stated, tried on the table: the request for \<open>A = (80, 58)\<close> is issued
  before the request for \<open>B = (180, 58)\<close>; the answer for \<open>B\<close> arrives and row 180 shows
  its record; the user scrolls back so that \<open>A\<close> is the debounced range again, and then the
  answer for \<open>A\<close> arrives, with no further request in the log. It is applied: row 80 shows
  its record and the rows of \<open>B\<close> are gone.
\<close>

theorem later_response_applied_after_scroll_back:
  "map_option issued
     (run ''app_1''
        [MetaResolved (seeded 300), Resolved (0, 50) (seeded 300),
         Scrolled (rows 100 117), Elapsed 300, TimerFired,
         Scrolled (rows 200 217), Elapsed 300, TimerFired,
         Resolved (180, 58) (seeded 300)]
        mounted) = Some [(0, 50), (80, 58), (180, 58)] \<and>
   map_option (rowAt 180)
     (run ''app_1''
        [MetaResolved (seeded 300), Resolved (0, 50) (seeded 300),
         Scrolled (rows 100 117), Elapsed 300, TimerFired,
         Scrolled (rows 200 217), Elapsed 300, TimerFired,
         Resolved (180, 58) (seeded 300)]
        mounted) = Some (Some 180) \<and>
   map_option issued
     (run ''app_1''
        [MetaResolved (seeded 300), Resolved (0, 50) (seeded 300),
         Scrolled (rows 100 117), Elapsed 300, TimerFired,
         Scrolled (rows 200 217), Elapsed 300, TimerFired,
         Resolved (180, 58) (seeded 300),
         Scrolled (rows 100 117), Elapsed 300, TimerFired,
         Resolved (80, 58) (seeded 300)]
        mounted) = Some [(0, 50), (80, 58), (180, 58)] \<and>
   map_option (rowAt 80)
     (run ''app_1''
        [MetaResolved (seeded 300), Resolved (0, 50) (seeded 300),
         Scrolled (rows 100 117), Elapsed 300, TimerFired,
         Scrolled (rows 200 217), Elapsed 300, TimerFired,
         Resolved (180, 58) (seeded 300),
         Scrolled (rows 100 117), Elapsed 300, TimerFired,
         Resolved (80, 58) (seeded 300)]
        mounted) = Some (Some 80) \<and>
   map_option (rowAt 180)
     (run ''app_1''
        [MetaResolved (seeded 300), Resolved (0, 50) (seeded 300),
         Scrolled (rows 100 117), Elapsed 300, TimerFired,
         Scrolled (rows 200 217), Elapsed 300, TimerFired,
         Resolved (180, 58) (seeded 300),
         Scrolled (rows 100 117), Elapsed 300, TimerFired,
         Resolved (80, 58) (seeded 300)]
        mounted) = Some None"
  by (simp add: machine_simps rowAt_def tableDataMap_def queryData_def dataMap_DataBody)

text \<open>
  Claim C4, amended. An answer is matched to the range that asked for it: the answer
  for the debounced range of the moment becomes the query result and the row cache is
  built from it; an answer for any other range, arriving while the result for the
  debounced range is shown, changes neither the query result nor the row cache.
\<close>

theorem response_applied_by_key:
  assumes "k \<in> set (inflight s)"
  shows "\<exists>s'. step appId (Resolved k dir) s = Some s' \<and>
           debouncedRange s' = debouncedRange s \<and>
           (if k = currentKey s
            then queryData s' = Some (fetchData dir appId k) \<and>
                 tableDataMap s' = dataMap (Some (fetchData dir appId k)) (fst k)
            else (\<forall>body t. cache s (currentKey s) = Some (Loaded body t) \<longrightarrow>
                    queryData s' = Some body \<and> tableDataMap s' = tableDataMap s))"
proof -
  define s1 where "s1 = s\<lparr>inflight := removeAll k (inflight s),
                cache := (cache s)(k \<mapsto> Loaded (fetchData dir appId k) (now s))\<rparr>"
  have st: "step appId (Resolved k dir) s = Some (remember s1)"
    using assms by (simp add: s1_def)
  have dr: "debouncedRange (remember s1) = debouncedRange s"
    by (simp add: s1_def)
  have ck: "currentKey s1 = currentKey s" by (simp add: s1_def currentKey_def)
  have q: "queryData (remember s1) = queryData s1" by (rule queryData_remember)
  show ?thesis
  proof (cases "k = currentKey s")
    case True
    then have "queryData s1 = Some (fetchData dir appId k)"
      by (simp add: queryData_def ck) (simp add: s1_def)
    moreover have "start (debouncedRange s) = fst k"
      using True by (simp add: currentKey_def keyOf_def)
    ultimately show ?thesis
      unfolding st using dr q True by (simp add: tableDataMap_def)
  next
    case False
    have "queryData s1 = Some body \<and> tableDataMap (remember s1) = tableDataMap s"
      if "cache s (currentKey s) = Some (Loaded body t)" for body t
    proof -
      from that False have "cache s1 (currentKey s1) = Some (Loaded body t)"
        by (simp add: ck) (simp add: s1_def)
      then have a: "queryData s1 = Some body" by (rule queryData_loaded)
      from that have b: "queryData s = Some body" by (rule queryData_loaded)
      have "debouncedRange s1 = debouncedRange s" by (simp add: s1_def)
      with a b show ?thesis
        by (simp add: tableDataMap_def q dr)
    qed
    then show ?thesis
      unfolding st using dr q False by auto
  qed
qed

theorem response_applied_by_key_witness:
  "\<exists>s s'.
     run ''app_1''
       [MetaResolved (seeded 300), Resolved (0, 50) (seeded 300),
        Scrolled (rows 100 117), Elapsed 300, TimerFired,
        Scrolled (rows 200 217), Elapsed 300, TimerFired,
        Resolved (180, 58) (seeded 300)]
       mounted = Some s \<and>
     currentKey s = (180, 58) \<and>
     step ''app_1'' (Resolved (80, 58) (seeded 300)) s = Some s' \<and>
     tableDataMap s' = tableDataMap s \<and>
     rowAt 180 s' = Some 180 \<and> rowAt 80 s' = None"
proof -
  have "\<exists>s. run ''app_1''
       [MetaResolved (seeded 300), Resolved (0, 50) (seeded 300),
        Scrolled (rows 100 117), Elapsed 300, TimerFired,
        Scrolled (rows 200 217), Elapsed 300, TimerFired,
        Resolved (180, 58) (seeded 300)]
       mounted = Some s \<and>
     currentKey s = (180, 58) \<and> inflight s = [(80, 58)] \<and>
     cache s (180, 58) = Some (Loaded (fetchData (seeded 300) ''app_1'' (180, 58)) 600) \<and>
     rowAt 180 s = Some 180 \<and> rowAt 80 s = None"
    by (simp add: machine_simps view_simps)
  then obtain s :: "nat table" where
    r: "run ''app_1''
       [MetaResolved (seeded 300), Resolved (0, 50) (seeded 300),
        Scrolled (rows 100 117), Elapsed 300, TimerFired,
        Scrolled (rows 200 217), Elapsed 300, TimerFired,
        Resolved (180, 58) (seeded 300)]
       mounted = Some s"
    and k: "currentKey s = (180, 58)" and i: "inflight s = [(80, 58)]"
    and c: "cache s (180, 58) = Some (Loaded (fetchData (seeded 300) ''app_1'' (180, 58)) 600)"
    and v: "rowAt 180 s = Some 180" "rowAt 80 s = None"
    by blast
  have m: "(80, 58) \<in> set (inflight s)" by (simp add: i)
  from response_applied_by_key [OF m, of "''app_1''" "seeded 300"]
  obtain s' where st: "step ''app_1'' (Resolved (80, 58) (seeded 300)) s = Some s'"
    and same: "tableDataMap s' = tableDataMap s"
    using k c by auto
  from same v have "rowAt 180 s' = Some 180" "rowAt 80 s' = None"
    by (simp_all add: rowAt_def)
  with r k st same show ?thesis by blast
qed

subsection \<open>Keys of the row cache\<close>

text \<open>
  The answer for the debounced range is stored under absolute row indices: row \<open>i\<close> of
  the window holds record \<open>i\<close> of the data file.
\<close>

lemma resolved_current_absolute:
  assumes "k \<in> set (inflight s)" and "k = currentKey s"
    and "dir (dataFile appId) = Some (JsonArray allData)"
    and "0 \<le> fst k" and "0 < snd k" and "snd k \<le> 1000"
  shows "\<exists>s'. step appId (Resolved k dir) s = Some s' \<and>
           (\<forall>i. tableDataMap s' i =
                  (if fst k \<le> i \<and> i < fst k + snd k \<and> i < int (length allData)
                   then Some (allData ! nat i) else None))"
proof -
  define s1 where "s1 = s\<lparr>inflight := removeAll k (inflight s),
                cache := (cache s)(k \<mapsto> Loaded (fetchData dir appId k) (now s))\<rparr>"
  have st: "step appId (Resolved k dir) s = Some (remember s1)"
    using assms(1) by (simp add: s1_def)
  have ck: "currentKey s1 = k" using assms(2) by (simp add: s1_def currentKey_def)
  have "cache s1 k = Some (Loaded (fetchData dir appId k) (now s))" by (simp add: s1_def)
  then have q: "queryData s1 = Some (fetchData dir appId k)"
    by (simp add: queryData_def ck)
  have b: "start (debouncedRange s1) = fst k"
    using assms(2) by (simp add: s1_def currentKey_def keyOf_def)
  have f: "fetchData dir appId k =
           DataBody (take (nat (snd k)) (drop (nat (fst k)) allData)) (int (length allData))"
    using assms(3-6) by (rule fetchData_window)
  have "tableDataMap (remember s1) i =
          (if fst k \<le> i \<and> i < fst k + snd k \<and> i < int (length allData)
           then Some (allData ! nat i) else None)" for i
    using assms(4,5)
    by (auto simp add: tableDataMap_def queryData_remember q b f dataMap_DataBody
        min_def nat_add_distrib nat_diff_distrib)
  then show ?thesis unfolding st by simp
qed

text \<open>
  Claim C5, tried on the table while a new window loads. The records of the window
  \<open>(0, 50)\<close> have arrived; the debounced range moves to \<open>(80, 58)\<close> and its request is under
  way. \<open>placeholderData\<close> hands the records of \<open>(0, 50)\<close> to \<open>dataMap\<close>, which keys them
  by the start of the new range: rows 80 to 129 hold the records 0 to 49, so row 100
  shows record 20. The claim keys each record by the start of the range that fetched it.
\<close>

theorem placeholder_rows_miskeyed:
  "map_option issued
     (run ''app_1''
        [MetaResolved (seeded 300), Resolved (0, 50) (seeded 300),
         Scrolled (rows 100 117), Elapsed 300, TimerFired]
        mounted) = Some [(0, 50), (80, 58)] \<and>
   map_option inflight
     (run ''app_1''
        [MetaResolved (seeded 300), Resolved (0, 50) (seeded 300),
         Scrolled (rows 100 117), Elapsed 300, TimerFired]
        mounted) = Some [(80, 58)] \<and>
   map_option debouncedRange
     (run ''app_1''
        [MetaResolved (seeded 300), Resolved (0, 50) (seeded 300),
         Scrolled (rows 100 117), Elapsed 300, TimerFired]
        mounted) = Some \<lparr>start = 80, size_r = 58\<rparr> \<and>
   map_option (rowAt 80)
     (run ''app_1''
        [MetaResolved (seeded 300), Resolved (0, 50) (seeded 300),
         Scrolled (rows 100 117), Elapsed 300, TimerFired]
        mounted) = Some (Some 0) \<and>
   map_option (rowAt 100)
     (run ''app_1''
        [MetaResolved (seeded 300), Resolved (0, 50) (seeded 300),
         Scrolled (rows 100 117), Elapsed 300, TimerFired]
        mounted) = Some (Some 20) \<and>
   map_option (rowAt 129)
     (run ''app_1''
        [MetaResolved (seeded 300), Resolved (0, 50) (seeded 300),
         Scrolled (rows 100 117), Elapsed 300, TimerFired]
        mounted) = Some (Some 49)"
  by (simp add: machine_simps view_simps)

subsection \<open>The placeholder follows its query\<close>

text \<open>
  While the debounced range is without entry, the table shows whatever the query last
  seen with data holds at that moment: an answer that reaches that query is shown at
  once, under the keys of the debounced range.
\<close>

lemma placeholder_follows_its_query:
  assumes "k \<in> set (inflight s)" and "lastWithData s = Cached k"
    and "cache s (currentKey s) = None"
  shows "\<exists>s'. step appId (Resolved k dir) s = Some s' \<and>
           queryData s' = Some (fetchData dir appId k)"
proof -
  define s1 where "s1 = s\<lparr>inflight := removeAll k (inflight s),
                cache := (cache s)(k \<mapsto> Loaded (fetchData dir appId k) (now s))\<rparr>"
  have st: "step appId (Resolved k dir) s = Some (remember s1)"
    using assms(1) by (simp add: s1_def)
  have ck: "currentKey s1 = currentKey s" by (simp add: s1_def currentKey_def)
  have cs: "cache s1 = (cache s)(k \<mapsto> Loaded (fetchData dir appId k) (now s))"
    and lw: "lastWithData s1 = Cached k"
    using assms(2) by (simp_all add: s1_def)
  have "queryData s1 = Some (fetchData dir appId k)"
  proof (cases "k = currentKey s")
    case True
    then show ?thesis by (simp add: queryData_def ck cs)
  next
    case False
    with assms(3) have "cache s1 (currentKey s) = None" by (simp add: cs)
    moreover have "previousData s1 = Some (fetchData dir appId k)"
      by (simp add: previousData_def lw cs)
    ultimately show ?thesis by (simp add: queryData_def ck)
  qed
  then show ?thesis unfolding st by (simp add: queryData_remember)
qed

text \<open>
  On the table: the window \<open>(0, 50)\<close> is 30 seconds old when the table scrolls away and
  back, so it is fetched again; the table scrolls to \<open>(80, 58)\<close> once more, whose first
  request is still under way, and shows the 50 old records of \<open>(0, 50)\<close>. The data file
  has shrunk to 10 records meanwhile: when the second answer for \<open>(0, 50)\<close> arrives, the
  table shows those 10 records in rows 80 to 89.
\<close>

lemma placeholder_shrinks_with_late_answer:
  "map_option (\<lambda>s. (currentKey s, cache s (80, 58), windowLength (queryData s), rowAt 100 s))
     (run ''app_1''
        [MetaResolved (seeded 300), Resolved (0, 50) (seeded 300), Elapsed 30000,
         Scrolled (rows 100 117), Elapsed 300, TimerFired,
         Scrolled (rows 0 29), Elapsed 300, TimerFired,
         Scrolled (rows 100 117), Elapsed 300, TimerFired]
        mounted) = Some ((80, 58), None, 50, Some 20) \<and>
   map_option (\<lambda>s. (currentKey s, cache s (80, 58), windowLength (queryData s), rowAt 100 s, rowAt 85 s))
     (run ''app_1''
        [MetaResolved (seeded 300), Resolved (0, 50) (seeded 300), Elapsed 30000,
         Scrolled (rows 100 117), Elapsed 300, TimerFired,
         Scrolled (rows 0 29), Elapsed 300, TimerFired,
         Scrolled (rows 100 117), Elapsed 300, TimerFired,
         Resolved (0, 50) (seeded 10)]
        mounted) = Some ((80, 58), None, 10, None, Some 5)"
  by (simp add: machine_simps view_simps)

subsection \<open>Size of the row cache\<close>

lemma windowBoundedI:
  assumes "visibleWithin W (virtualItems s)"
    and "size_r (debouncedRange s) \<le> 2 * BUFFER_SIZE + W"
    and "\<And>deadline r. timer s = Some (deadline, r) \<Longrightarrow> size_r r \<le> 2 * BUFFER_SIZE + W"
    and "\<And>k. k \<in> set (issued s) \<Longrightarrow> snd k \<le> 2 * BUFFER_SIZE + W"
    and "\<And>k. k \<in> set (inflight s) \<Longrightarrow> k \<in> set (issued s)"
    and "\<And>k body t. cache s k = Some (Loaded body t) \<Longrightarrow>
           k \<in> set (issued s) \<and> int (windowLength (Some body)) \<le> max 0 (snd k)"
    and "\<And>body. lastWithData s = Detached body \<Longrightarrow>
           \<exists>k \<in> set (issued s). int (windowLength (Some body)) \<le> max 0 (snd k)"
  shows "windowBounded W s"
  unfolding windowBounded_def using assms by blast

lemma windowBoundedD:
  assumes "windowBounded W s"
  shows "visibleWithin W (virtualItems s)"
    and "size_r (debouncedRange s) \<le> 2 * BUFFER_SIZE + W"
    and "\<And>deadline r. timer s = Some (deadline, r) \<Longrightarrow> size_r r \<le> 2 * BUFFER_SIZE + W"
    and "\<And>k. k \<in> set (issued s) \<Longrightarrow> snd k \<le> 2 * BUFFER_SIZE + W"
    and "\<And>k. k \<in> set (inflight s) \<Longrightarrow> k \<in> set (issued s)"
    and "\<And>k body t. cache s k = Some (Loaded body t) \<Longrightarrow>
           k \<in> set (issued s) \<and> int (windowLength (Some body)) \<le> max 0 (snd k)"
    and "\<And>body. lastWithData s = Detached body \<Longrightarrow>
           \<exists>k \<in> set (issued s). int (windowLength (Some body)) \<le> max 0 (snd k)"
  using assms unfolding windowBounded_def by blast+

lemma visibleRange_size:
  assumes "visibleWithin W items" and "50 \<le> 2 * BUFFER_SIZE + W"
  shows "size_r (visibleRange items tc) \<le> 2 * BUFFER_SIZE + W"
proof (cases "items = []")
  case True
  with assms(2) show ?thesis by (simp add: visibleRange_def)
next
  case False
  with assms(1) have "index (last items) - index (hd items) + 1 \<le> W"
    by (simp add: visibleWithin_def)
  with False show ?thesis
    by (simp add: visibleRange_nonempty BUFFER_SIZE_def)
qed

lemma windowBounded_mounted:
  assumes "50 \<le> 2 * BUFFER_SIZE + W"
  shows "windowBounded W mounted"
  using assms
  by (intro windowBoundedI) (simp_all add: mounted_def visibleWithin_def visibleRange_def)

lemma windowBounded_restartTimer:
  assumes "windowBounded W s" and "50 \<le> 2 * BUFFER_SIZE + W"
  shows "windowBounded W (restartTimer s)"
proof (rule windowBoundedI)
  fix deadline r assume "timer (restartTimer s) = Some (deadline, r)"
  then have "r = visibleRange (virtualItems s) (totalCount' s)"
    by (simp add: restartTimer_def)
  then show "size_r r \<le> 2 * BUFFER_SIZE + W"
    using visibleRange_size [OF windowBoundedD(1) [OF assms(1)] assms(2)] by simp
qed (use windowBoundedD [OF assms(1)] in \<open>simp_all add: restartTimer_def\<close>)

lemma windowBounded_totalCount:
  assumes "windowBounded W s"
  shows "windowBounded W (s\<lparr>totalCount' := n\<rparr>)"
  by (rule windowBoundedI) (use windowBoundedD [OF assms] in simp_all)

lemma windowBounded_virtualItems:
  assumes "windowBounded W s" and "visibleWithin W items"
  shows "windowBounded W (s\<lparr>virtualItems := items\<rparr>)"
  by (rule windowBoundedI) (use windowBoundedD [OF assms(1)] assms(2) in simp_all)

lemma windowBounded_now:
  assumes "windowBounded W s"
  shows "windowBounded W (s\<lparr>now := t\<rparr>)"
  by (rule windowBoundedI) (use windowBoundedD [OF assms] in simp_all)

lemma windowBounded_fire:
  assumes "windowBounded W s" and "timer s = Some (deadline, r)"
  shows "windowBounded W (s\<lparr>debouncedRange := r, timer := None\<rparr>)"
  by (rule windowBoundedI) (use windowBoundedD [OF assms(1)] assms(2) in simp_all)

lemma windowBounded_startFetch:
  assumes "windowBounded W s"
  shows "windowBounded W (startFetch s)"
proof (cases "0 < totalCount' s \<and> currentKey s \<notin> set (inflight s) \<and>
              isStale (cache s) (now s) (currentKey s)")
  case False
  then have "startFetch s = s" by (auto simp add: startFetch_def Let_def)
  with assms show ?thesis by simp
next
  case True
  note D = windowBoundedD [OF assms]
  have k: "snd (currentKey s) \<le> 2 * BUFFER_SIZE + W"
    using D(2) by (simp add: currentKey_def keyOf_def)
  define c' where "c' = (case cache s (currentKey s) of
                    Some Failed \<Rightarrow> (cache s)(currentKey s := None)
                  | _ \<Rightarrow> cache s)"
  have c: "cache s k = Some (Loaded body t)" if "c' k = Some (Loaded body t)" for k body t
    using that unfolding c'_def by (auto split: option.splits queryState.splits if_splits)
  from True have eq: "startFetch s =
      s\<lparr>inflight := currentKey s # inflight s, issued := issued s @ [currentKey s],
        cache := c'\<rparr>"
    by (simp add: startFetch_def Let_def c'_def)
  show ?thesis
    unfolding eq
  proof (rule windowBoundedI)
    fix k body t
    assume "cache (s\<lparr>inflight := currentKey s # inflight s,
                     issued := issued s @ [currentKey s], cache := c'\<rparr>) k
              = Some (Loaded body t)"
    then have "cache s k = Some (Loaded body t)" using c by simp
    from D(6) [OF this]
    show "k \<in> set (issued (s\<lparr>inflight := currentKey s # inflight s,
                     issued := issued s @ [currentKey s], cache := c'\<rparr>)) \<and>
          int (windowLength (Some body)) \<le> max 0 (snd k)"
      by simp
  next
    fix body
    assume "lastWithData (s\<lparr>inflight := currentKey s # inflight s,
                     issued := issued s @ [currentKey s], cache := c'\<rparr>) = Detached body"
    then have "lastWithData s = Detached body" by simp
    from D(7) [OF this]
    show "\<exists>k \<in> set (issued (s\<lparr>inflight := currentKey s # inflight s,
                     issued := issued s @ [currentKey s], cache := c'\<rparr>)).
             int (windowLength (Some body)) \<le> max 0 (snd k)"
      by auto
  qed (use D k in auto)
qed

lemma windowBounded_remember:
  assumes "windowBounded W s"
  shows "windowBounded W (remember s)"
proof (cases "\<exists>body t. cache s (currentKey s) = Some (Loaded body t)")
  case False
  then have "remember s = s"
    by (auto simp add: remember_def split: option.splits queryState.splits)
  with assms show ?thesis by simp
next
  case True
  then obtain body t where c: "cache s (currentKey s) = Some (Loaded body t)" by blast
  then have eq: "remember s = s\<lparr>lastWithData := Cached (currentKey s)\<rparr>"
    by (simp add: remember_def)
  show ?thesis
    unfolding eq
    by (rule windowBoundedI) (use windowBoundedD [OF assms] in simp_all)
qed

lemma windowBounded_resolved:
  assumes "windowBounded W s" and "k \<in> set (inflight s)"
  shows "windowBounded W
           (s\<lparr>inflight := removeAll k (inflight s),
              cache := (cache s)(k \<mapsto> Loaded (fetchData dir appId k) (now s))\<rparr>)"
proof (rule windowBoundedI)
  note D = windowBoundedD [OF assms(1)]
  fix k' body t
  assume a: "cache (s\<lparr>inflight := removeAll k (inflight s),
                cache := (cache s)(k \<mapsto> Loaded (fetchData dir appId k) (now s))\<rparr>) k'
               = Some (Loaded body t)"
  show "k' \<in> set (issued (s\<lparr>inflight := removeAll k (inflight s),
                cache := (cache s)(k \<mapsto> Loaded (fetchData dir appId k) (now s))\<rparr>)) \<and>
        int (windowLength (Some body)) \<le> max 0 (snd k')"
  proof (cases "k' = k")
    case True
    with a have "body = fetchData dir appId k" by simp
    with True D(5) [OF assms(2)] fetchData_length [of dir appId k] show ?thesis by simp
  next
    case False
    with a have "cache s k' = Some (Loaded body t)" by simp
    from D(6) [OF this] show ?thesis by simp
  qed
qed (use windowBoundedD [OF assms(1)] in auto)

lemma windowBounded_rejected:
  assumes "windowBounded W s"
  shows "windowBounded W
           (s\<lparr>inflight := removeAll k (inflight s),
              cache := (case cache s k of
                          Some (Loaded body fetchedAt) \<Rightarrow> cache s
                        | _ \<Rightarrow> (cache s)(k \<mapsto> Failed))\<rparr>)"
proof -
  note D = windowBoundedD [OF assms]
  define c' where "c' = (case cache s k of
                          Some (Loaded body fetchedAt) \<Rightarrow> cache s
                        | _ \<Rightarrow> (cache s)(k \<mapsto> Failed))"
  have c: "cache s k' = Some (Loaded body t)" if "c' k' = Some (Loaded body t)" for k' body t
    using that unfolding c'_def by (auto split: option.splits queryState.splits if_splits)
  have "windowBounded W (s\<lparr>inflight := removeAll k (inflight s), cache := c'\<rparr>)"
  proof (rule windowBoundedI)
    fix k' body t
    assume "cache (s\<lparr>inflight := removeAll k (inflight s), cache := c'\<rparr>) k'
              = Some (Loaded body t)"
    then have "cache s k' = Some (Loaded body t)" using c by simp
    from D(6) [OF this]
    show "k' \<in> set (issued (s\<lparr>inflight := removeAll k (inflight s), cache := c'\<rparr>)) \<and>
          int (windowLength (Some body)) \<le> max 0 (snd k')"
      by simp
  qed (use D in auto)
  then show ?thesis by (simp add: c'_def)
qed

lemma windowBounded_collected:
  assumes "windowBounded W s"
  shows "windowBounded W
           (s\<lparr>cache := (cache s)(k := None),
              lastWithData :=
                (case lastWithData s of
                   Cached k' \<Rightarrow>
                     if k' = k
                     then (case cache s k of
                             Some (Loaded body fetchedAt) \<Rightarrow> Detached body
                           | _ \<Rightarrow> NoQuery)
                     else Cached k'
                 | ref \<Rightarrow> ref)\<rparr>)"
proof -
  note D = windowBoundedD [OF assms]
  define l' where "l' = (case lastWithData s of
                   Cached k' \<Rightarrow>
                     if k' = k
                     then (case cache s k of
                             Some (Loaded body fetchedAt) \<Rightarrow> Detached body
                           | _ \<Rightarrow> NoQuery)
                     else Cached k'
                 | ref \<Rightarrow> ref)"
  have l: "lastWithData s = Detached body \<or> (\<exists>t. cache s k = Some (Loaded body t))"
    if "l' = Detached body" for body
    using that unfolding l'_def
    by (auto split: queryRef.splits option.splits queryState.splits if_splits)
  have "windowBounded W (s\<lparr>cache := (cache s)(k := None), lastWithData := l'\<rparr>)"
  proof (rule windowBoundedI)
    fix k' body t
    assume "cache (s\<lparr>cache := (cache s)(k := None), lastWithData := l'\<rparr>) k'
              = Some (Loaded body t)"
    then have "cache s k' = Some (Loaded body t)" by (simp split: if_splits)
    from D(6) [OF this]
    show "k' \<in> set (issued (s\<lparr>cache := (cache s)(k := None), lastWithData := l'\<rparr>)) \<and>
          int (windowLength (Some body)) \<le> max 0 (snd k')"
      by simp
  next
    fix body
    assume "lastWithData (s\<lparr>cache := (cache s)(k := None), lastWithData := l'\<rparr>)
              = Detached body"
    then have "l' = Detached body" by simp
    from l [OF this]
    show "\<exists>k' \<in> set (issued (s\<lparr>cache := (cache s)(k := None), lastWithData := l'\<rparr>)).
             int (windowLength (Some body)) \<le> max 0 (snd k')"
    proof
      assume "lastWithData s = Detached body"
      from D(7) [OF this] show ?thesis by simp
    next
      assume "\<exists>t. cache s k = Some (Loaded body t)"
      then obtain t where "cache s k = Some (Loaded body t)" by blast
      from D(6) [OF this] show ?thesis by auto
    qed
  qed (use D in auto)
  then show ?thesis by (simp add: l'_def)
qed

lemma windowBounded_step:
  assumes "windowBounded W s" and "withinViewport W e" and "50 \<le> 2 * BUFFER_SIZE + W"
    and "step appId e s = Some s'"
  shows "windowBounded W s'"
proof (cases e)
  case (MetaResolved dir)
  have a: "windowBounded W (s\<lparr>totalCount' := fetchMeta dir appId\<rparr>)"
    using assms(1) by (rule windowBounded_totalCount)
  have b: "windowBounded W (restartTimer (s\<lparr>totalCount' := fetchMeta dir appId\<rparr>))"
    using a assms(3) by (rule windowBounded_restartTimer)
  from assms(4) MetaResolved a b show ?thesis
    by (auto simp add: Let_def windowBounded_startFetch split: if_splits)
next
  case (Scrolled items)
  have "windowBounded W (s\<lparr>virtualItems := items\<rparr>)"
    using assms(1,2) Scrolled by (simp add: windowBounded_virtualItems)
  then have "windowBounded W (restartTimer (s\<lparr>virtualItems := items\<rparr>))"
    using assms(3) by (rule windowBounded_restartTimer)
  with assms(4) Scrolled show ?thesis by simp
next
  case (Elapsed d)
  with assms(1,4) show ?thesis by (auto simp add: windowBounded_now)
next
  case TimerFired
  from assms(4) TimerFired obtain deadline r where t: "timer s = Some (deadline, r)"
    by (auto split: option.splits)
  have a: "windowBounded W (s\<lparr>debouncedRange := r, timer := None\<rparr>)"
    using assms(1) t by (rule windowBounded_fire)
  from assms(4) TimerFired t a show ?thesis
    by (auto simp add: windowBounded_startFetch windowBounded_remember split: if_splits)
next
  case (Resolved k dir)
  with assms(4) have k: "k \<in> set (inflight s)" by (simp split: if_splits)
  from windowBounded_resolved [OF assms(1) k, of dir appId]
  show ?thesis
    using assms(4) Resolved k by (auto simp add: windowBounded_remember)
next
  case (Rejected k)
  with assms(4) have k: "k \<in> set (inflight s)" by (simp split: if_splits)
  from windowBounded_rejected [OF assms(1), of k]
  show ?thesis
    using assms(4) Rejected k by auto
next
  case (Collected k)
  with assms(4) windowBounded_collected [OF assms(1), of k] show ?thesis
    by (auto split: if_splits)
qed

lemma windowBounded_run:
  assumes "windowBounded W s" and "\<forall>e \<in> set es. withinViewport W e"
    and "50 \<le> 2 * BUFFER_SIZE + W" and "run appId es s = Some s'"
  shows "windowBounded W s'"
  using assms
proof (induction es arbitrary: s)
  case Nil
  then show ?case by simp
next
  case (Cons e es)
  from Cons.prems(4) obtain s1 where s1: "step appId e s = Some s1"
    and r: "run appId es s1 = Some s'"
    by (auto split: option.splits)
  from Cons.prems(2) have e: "withinViewport W e" by simp
  have "windowBounded W s1"
    using Cons.prems(1) e Cons.prems(3) s1 by (rule windowBounded_step)
  then show ?case
    using Cons.IH [of s1] Cons.prems(2,3) r by simp
qed

lemma windowBounded_previousData:
  assumes "windowBounded W s" and "previousData s = Some body"
  shows "\<exists>k \<in> set (issued s). int (windowLength (Some body)) \<le> max 0 (snd k)"
proof (cases "lastWithData s")
  case NoQuery
  with assms(2) show ?thesis by (simp add: previousData_def)
next
  case (Cached k)
  with assms(2) obtain t where "cache s k = Some (Loaded body t)"
    by (auto simp add: previousData_def split: option.splits queryState.splits)
  from windowBoundedD(6) [OF assms(1) this] show ?thesis by blast
next
  case (Detached b)
  with assms(2) have "lastWithData s = Detached body" by (simp add: previousData_def)
  from windowBoundedD(7) [OF assms(1) this] show ?thesis .
qed

lemma windowBounded_queryData:
  assumes "windowBounded W s"
  shows "windowLength (queryData s) = 0 \<or>
         (\<exists>k \<in> set (issued s). int (windowLength (queryData s)) \<le> snd k \<and>
                                snd k \<le> 2 * BUFFER_SIZE + W)"
proof (cases "queryData s")
  case None
  then show ?thesis by simp
next
  case (Some body)
  note D = windowBoundedD [OF assms]
  have "\<exists>k \<in> set (issued s). int (windowLength (Some body)) \<le> max 0 (snd k)"
  proof (cases "cache s (currentKey s)")
    case None
    with Some have "previousData s = Some body" by (simp add: queryData_def)
    with assms show ?thesis by (rule windowBounded_previousData)
  next
    case (Some st)
    with \<open>queryData s = Some body\<close> obtain t where "cache s (currentKey s) = Some (Loaded body t)"
      by (cases st) (simp_all add: queryData_def)
    from D(6) [OF this] show ?thesis by blast
  qed
  then obtain k where k: "k \<in> set (issued s)"
    and le: "int (windowLength (Some body)) \<le> max 0 (snd k)"
    by blast
  show ?thesis
  proof (cases "windowLength (Some body) = 0")
    case True
    with Some show ?thesis by simp
  next
    case False
    with le have "int (windowLength (Some body)) \<le> snd k" by simp
    with k D(4) [OF k] Some show ?thesis by auto
  qed
qed

text \<open>
  Claim C6. In every state the mounted table can reach, the row cache holds one
  contiguous window starting at the debounced start; it is empty or no larger than the
  range of a request that was issued, and never larger than \<open>2 * BUFFER_SIZE + W\<close>, where
  \<open>W\<close> bounds the number of rows the virtualizer reports at once (at least 10 rows, which
  the 600 pixel viewport of 50 pixel rows exceeds, so that the default range of 50 rows
  is covered). The total count does not enter the bound.
\<close>

theorem row_cache_bounded:
  assumes "run appId es mounted = Some s"
    and "\<forall>e \<in> set es. withinViewport W e"
    and "50 \<le> 2 * BUFFER_SIZE + W"
  shows "\<exists>n. dom (tableDataMap s) =
               {start (debouncedRange s) ..< start (debouncedRange s) + int n} \<and>
             card (dom (tableDataMap s)) = n \<and>
             int n \<le> 2 * BUFFER_SIZE + W \<and>
             (n = 0 \<or> (\<exists>k \<in> set (issued s). int n \<le> snd k \<and> snd k \<le> 2 * BUFFER_SIZE + W))"
proof -
  have inv: "windowBounded W s"
    using windowBounded_mounted [OF assms(3)] assms(2) assms(3) assms(1)
    by (rule windowBounded_run)
  let ?n = "windowLength (queryData s)"
  have d: "dom (tableDataMap s) =
             {start (debouncedRange s) ..< start (debouncedRange s) + int ?n}"
    by (simp add: tableDataMap_def dom_dataMap)
  have c: "card (dom (tableDataMap s)) = ?n"
    by (simp add: tableDataMap_def card_dom_dataMap)
  from windowBounded_queryData [OF inv]
  have b: "?n = 0 \<or> (\<exists>k \<in> set (issued s). int ?n \<le> snd k \<and> snd k \<le> 2 * BUFFER_SIZE + W)" .
  then have "int ?n \<le> 2 * BUFFER_SIZE + W"
    using assms(3) by auto
  with d c b show ?thesis by blast
qed

theorem row_cache_bounded_witness:
  "\<exists>s. run ''app_1''
         [MetaResolved (seeded 300), Resolved (0, 50) (seeded 300),
          Scrolled (rows 100 117), Elapsed 300, TimerFired,
          Resolved (80, 58) (seeded 300)]
         mounted = Some s \<and>
       dom (tableDataMap s) = {80..<138} \<and>
       card (dom (tableDataMap s)) = 58 \<and>
       int (card (dom (tableDataMap s))) \<le> 2 * BUFFER_SIZE + 18"
proof -
  have "\<exists>s. run ''app_1''
         [MetaResolved (seeded 300), Resolved (0, 50) (seeded 300),
          Scrolled (rows 100 117), Elapsed 300, TimerFired,
          Resolved (80, 58) (seeded 300)]
         mounted = Some s \<and>
       start (debouncedRange s) = 80 \<and> windowLength (queryData s) = 58"
    by (simp add: machine_simps queryData_def)
  then obtain s :: "nat table" where
    r: "run ''app_1''
         [MetaResolved (seeded 300), Resolved (0, 50) (seeded 300),
          Scrolled (rows 100 117), Elapsed 300, TimerFired,
          Resolved (80, 58) (seeded 300)]
         mounted = Some s"
    and b: "start (debouncedRange s) = 80" and l: "windowLength (queryData s) = 58"
    by blast
  have w: "\<forall>e \<in> set [MetaResolved (seeded 300), Resolved (0, 50) (seeded 300),
          Scrolled (rows 100 117), Elapsed 300, TimerFired,
          Resolved (80, 58) (seeded 300)]. withinViewport 18 e"
    by (simp add: visibleWithin_rows)
  have h: "50 \<le> 2 * BUFFER_SIZE + 18" by (simp add: BUFFER_SIZE_def)
  from row_cache_bounded [OF r w h]
  have "int (card (dom (tableDataMap s))) \<le> 2 * BUFFER_SIZE + 18" by auto
  moreover have "dom (tableDataMap s) = {80..<138}"
    by (simp add: tableDataMap_def dom_dataMap b l)
  moreover have "card (dom (tableDataMap s)) = 58"
    by (simp add: tableDataMap_def card_dom_dataMap l)
  ultimately show ?thesis using r by blast
qed

subsection \<open>Failed requests\<close>




end
